theory Spec2Isabelle
  imports Main "HOL-Library.Word" "HOL-Library.Signed_Division" "HOL-Library.Multiset"
    "HOL-Library.Sublist"
begin

section \<open>Data model\<close>

text \<open>
  A \<^verbatim>\<open>*url.URL\<close> is observed by the program in two ways only: through
  \<^verbatim>\<open>String()\<close> (compared in \<^verbatim>\<open>MarkBackendStatus\<close>, printed in logs) and
  through the field \<^verbatim>\<open>Host\<close> (dialled by \<^verbatim>\<open>isBackendAlive\<close>). The record keeps
  these two observations.
\<close>

record URL =
  String :: string
  Host :: string

text \<open>
  Modelled from the spec: the declaration of \<^verbatim>\<open>Backend\<close> is missing from the
  sources. The struct literal in \<^verbatim>\<open>main\<close> shows its fields \<^verbatim>\<open>Url\<close>, \<^verbatim>\<open>Alive\<close>
  and \<^verbatim>\<open>ReverseProxy\<close>, and the specification (3) describes \<^verbatim>\<open>address\<close> and
  \<^verbatim>\<open>alive\<close>. The reverse proxy of a backend is built from its URL alone
  (\<^verbatim>\<open>NewSingleHostReverseProxy(serverUrl)\<close>, with an error handler that closes over
  \<^verbatim>\<open>serverUrl\<close>), so it is not stored: it is the function \<open>ServeHTTP\<close> below, applied
  to the URL.
\<close>

record Backend =
  Url :: URL
  Alive :: bool

text \<open>
  Modelled from the spec: \<^verbatim>\<open>SetAlive\<close> is missing from the sources. The
  specification (4.1) has it as an unconditional overwrite of the flag, with no other
  effect.
\<close>

definition SetAlive :: "Backend \<Rightarrow> bool \<Rightarrow> Backend" where
  "SetAlive b alive = b\<lparr>Alive := alive\<rparr>"

text \<open>
  Modelled from the spec: \<^verbatim>\<open>IsAlive\<close> is missing from the sources. The
  specification (4.1) has it return the last value written.
\<close>

definition IsAlive :: "Backend \<Rightarrow> bool" where
  "IsAlive b = Alive b"

text \<open>
  \<^verbatim>\<open>ServerPool\<close>: the slice of backends and the \<^verbatim>\<open>uint64\<close> cursor. The slice
  holds pointers; \<^verbatim>\<open>main\<close> allocates a fresh \<^verbatim>\<open>Backend\<close> for every entry, so no
  two entries alias and the pool is modelled as the list of the structs themselves.
\<close>

record ServerPool =
  backends :: "Backend list"
  current :: "64 word"

datatype panic = IntegerDivideByZero | IndexOutOfRange

section \<open>The backend pool\<close>

definition AddBackend :: "ServerPool \<Rightarrow> Backend \<Rightarrow> ServerPool" where
  "AddBackend s backend = s\<lparr>backends := backends s @ [backend]\<rparr>"

text \<open>
  \<^verbatim>\<open>int(atomic.AddUint64(&s.current, 1) % uint64(len(s.backends)))\<close>: the addition
  wraps at \<open>2^64\<close>, the remainder by zero panics, and the conversion to \<^verbatim>\<open>int\<close>
  reads the 64 bits as a signed value.
\<close>

definition NextIndex :: "ServerPool \<Rightarrow> panic + (int \<times> ServerPool)" where
  "NextIndex s =
     (let c = current s + 1;
          s' = s\<lparr>current := c\<rparr>;
          n = (word_of_nat (length (backends s)) :: 64 word)
      in if n = 0 then Inl IntegerDivideByZero
         else Inr (sint (c mod n), s'))"

text \<open>
  The indices of the scan are values of Go's \<^verbatim>\<open>int\<close>. They are modelled as integers
  without a bound: \<^verbatim>\<open>next\<close> is less than the length of the slice and \<^verbatim>\<open>i\<close> less than
  twice the length, and a slice of pointers that the machine can hold has fewer than
  \<open>2^60\<close> elements, so no sum reaches \<open>2^63\<close>.

  Reading \<^verbatim>\<open>s.backends[idx]\<close>: out of range it panics.
\<close>

definition index :: "'a list \<Rightarrow> int \<Rightarrow> panic + 'a" where
  "index xs i = (if 0 \<le> i \<and> i < int (length xs) then Inr (xs ! nat i) else Inl IndexOutOfRange)"

text \<open>Go's \<^verbatim>\<open>%\<close> on \<^verbatim>\<open>int\<close> truncates towards zero and panics on a zero divisor.\<close>

definition rem :: "int \<Rightarrow> int \<Rightarrow> panic + int" where
  "rem a b = (if b = 0 then Inl IntegerDivideByZero else Inr (a smod b))"

text \<open>
  The scan of \<^verbatim>\<open>GetNextPeer\<close>: \<^verbatim>\<open>for i := next; i < l; i++\<close>. The first alive
  backend is returned; the cursor is stored only when it was not found at \<open>next\<close>.
\<close>

function GetNextPeer_loop ::
  "ServerPool \<Rightarrow> int \<Rightarrow> int \<Rightarrow> int \<Rightarrow> panic + (Backend option \<times> ServerPool)" where
  "GetNextPeer_loop s next l i =
     (if i < l then
        (case rem i (int (length (backends s))) of
           Inl p \<Rightarrow> Inl p
         | Inr idx \<Rightarrow>
             (case index (backends s) idx of
                Inl p \<Rightarrow> Inl p
              | Inr b \<Rightarrow>
                  if IsAlive b then
                    Inr (Some b, if i \<noteq> next then s\<lparr>current := word_of_int idx\<rparr> else s)
                  else GetNextPeer_loop s next l (i + 1)))
      else Inr (None, s))"
  by pat_completeness auto
termination
  by (relation "measure (\<lambda>(s, next, l, i). nat (l - i))") auto

definition GetNextPeer :: "ServerPool \<Rightarrow> panic + (Backend option \<times> ServerPool)" where
  "GetNextPeer s =
     (case NextIndex s of
        Inl p \<Rightarrow> Inl p
      | Inr (next, s1) \<Rightarrow>
          (let l = int (length (backends s1)) + next
           in GetNextPeer_loop s1 next l next))"

text \<open>
  \<^verbatim>\<open>MarkBackendStatus\<close>: the \<^verbatim>\<open>range\<close> loop with its \<^verbatim>\<open>break\<close> after the first
  backend whose URL string equals the given one.
\<close>

fun MarkBackendStatus_loop :: "Backend list \<Rightarrow> URL \<Rightarrow> bool \<Rightarrow> Backend list" where
  "MarkBackendStatus_loop [] backendUrl alive = []"
| "MarkBackendStatus_loop (b # bs) backendUrl alive =
     (if String (Url b) = String backendUrl then SetAlive b alive # bs
      else b # MarkBackendStatus_loop bs backendUrl alive)"

definition MarkBackendStatus :: "ServerPool \<Rightarrow> URL \<Rightarrow> bool \<Rightarrow> ServerPool" where
  "MarkBackendStatus s backendUrl alive =
     s\<lparr>backends := MarkBackendStatus_loop (backends s) backendUrl alive\<rparr>"


text \<open>\<open>n\<close> consecutive calls, each on the pool the previous one left.\<close>

fun NextIndex_calls :: "nat \<Rightarrow> ServerPool \<Rightarrow> panic + (int list \<times> ServerPool)" where
  "NextIndex_calls 0 s = Inr ([], s)"
| "NextIndex_calls (Suc n) s =
     (case NextIndex s of
        Inl p \<Rightarrow> Inl p
      | Inr (i, s1) \<Rightarrow>
          (case NextIndex_calls n s1 of
             Inl p \<Rightarrow> Inl p
           | Inr (is, s2) \<Rightarrow> Inr (i # is, s2)))"

fun GetNextPeer_calls :: "nat \<Rightarrow> ServerPool \<Rightarrow> panic + (Backend option list \<times> ServerPool)" where
  "GetNextPeer_calls 0 s = Inr ([], s)"
| "GetNextPeer_calls (Suc n) s =
     (case GetNextPeer s of
        Inl p \<Rightarrow> Inl p
      | Inr (peer, s1) \<Rightarrow>
          (case GetNextPeer_calls n s1 of
             Inl p \<Rightarrow> Inl p
           | Inr (peers, s2) \<Rightarrow> Inr (peer # peers, s2)))"

text \<open>
  The pool as \<^verbatim>\<open>main\<close> builds it: the zero value of \<^verbatim>\<open>ServerPool\<close>, then one
  \<^verbatim>\<open>AddBackend\<close> per configured URL, each backend alive.
\<close>

definition configure :: "URL list \<Rightarrow> ServerPool" where
  "configure servers =
     foldl (\<lambda>s serverUrl. AddBackend s \<lparr>Url = serverUrl, Alive = True\<rparr>)
       \<lparr>backends = [], current = 0\<rparr> servers"

section \<open>Requests and their context\<close>

text \<open>
  A context value is an \<^verbatim>\<open>interface{}\<close>: a value together with its dynamic type. The
  keys \<^verbatim>\<open>Attempts\<close> and \<^verbatim>\<open>Retry\<close> are the \<^verbatim>\<open>int\<close> constants 0 and 1.
  \<^verbatim>\<open>context.WithValue\<close> puts a binding in front of its parent and \<^verbatim>\<open>Value\<close>
  returns the nearest binding of the key, \<^verbatim>\<open>nil\<close> (here \<open>None\<close>) when there is none.
\<close>

datatype any = AnyInt int | AnyString string | AnyBool bool

type_synonym Context = "(any \<times> any) list"

definition Attempts :: any where
  "Attempts = AnyInt 0"

definition Retry :: any where
  "Retry = AnyInt 1"

definition WithValue :: "Context \<Rightarrow> any \<Rightarrow> any \<Rightarrow> Context" where
  "WithValue parent key val = (key, val) # parent"

definition Value :: "Context \<Rightarrow> any \<Rightarrow> any option" where
  "Value c key = map_of c key"

record Request =
  ctx :: Context
  RemoteAddr :: string
  Path :: string

definition WithContext :: "Request \<Rightarrow> Context \<Rightarrow> Request" where
  "WithContext r c = r\<lparr>ctx := c\<rparr>"

text \<open>
  The type assertion \<^verbatim>\<open>.(int)\<close> succeeds on a present value of dynamic type int. The
  counters are modelled as integers without a bound: the program only ever stores a
  counter that it read, or 0, plus one, and the retry count stops at 3.
\<close>

definition GetRetryFromContext :: "Request \<Rightarrow> int" where
  "GetRetryFromContext r =
     (case Value (ctx r) Retry of
        Some (AnyInt retry) \<Rightarrow> retry
      | _ \<Rightarrow> 0)"

definition GetAttemptsFromContext :: "Request \<Rightarrow> int" where
  "GetAttemptsFromContext r =
     (case Value (ctx r) Attempts of
        Some (AnyInt attempts) \<Rightarrow> attempts
      | _ \<Rightarrow> 0)"

section \<open>The process: pool, effects and environment\<close>

text \<open>
  What the program does to the outside world is recorded, in order, as a list of events:
  log lines, the backoff wait, invocations of the forwarder and their completion, the
  error response, and dials of the health check.
\<close>

datatype dial_error = Timeout | ConnectionError

datatype event =
    LogProxyError string
  | After nat
  | Forward URL Request
  | Delivered URL
  | LogAttempt string string int
  | HttpError string nat
  | DialTimeout string string nat
  | ConnClose string
  | LogUnreachable dial_error
  | LogStatus string string

record World =
  serverPool :: ServerPool
  events :: "event list"

fun is_Forward :: "event \<Rightarrow> bool" where
  "is_Forward (Forward u r) = True"
| "is_Forward e = False"

fun is_DialTimeout :: "event \<Rightarrow> bool" where
  "is_DialTimeout (DialTimeout network address timeout) = True"
| "is_DialTimeout e = False"

text \<open>
  The environment. The forwarder (\<^verbatim>\<open>httputil.ReverseProxy\<close>) and the network are
  external: \<open>fwd k u\<close> tells whether the forwarder's invocation number \<open>k\<close> of the
  process (counting from 0), made against \<open>u\<close>, completes the round trip, and
  \<open>dial k address\<close> is the error of dial number \<open>k\<close>, \<open>None\<close> for \<^verbatim>\<open>err == nil\<close>.
\<close>

type_synonym forwarder = "nat \<Rightarrow> URL \<Rightarrow> bool"

type_synonym dialer = "nat \<Rightarrow> string \<Rightarrow> dial_error option"

section \<open>Dispatcher, forwarder and error handler\<close>

text \<open>
  \<^verbatim>\<open>lb\<close>, the proxy's \<^verbatim>\<open>ServeHTTP\<close> and the \<^verbatim>\<open>ErrorHandler\<close> closure of
  \<^verbatim>\<open>main\<close> call one another. \<open>ServeHTTP\<close> stands for the external forwarder with
  this handler installed: it either delivers or calls the handler with the error. The
  first argument bounds the number of forwarder invocations still allowed; \<open>None\<close>
  means the bound was reached before the call returned.
\<close>

fun lb :: "nat \<Rightarrow> forwarder \<Rightarrow> Request \<Rightarrow> World \<Rightarrow> (panic + World) option"
  and ServeHTTP :: "nat \<Rightarrow> forwarder \<Rightarrow> URL \<Rightarrow> Request \<Rightarrow> World \<Rightarrow> (panic + World) option"
  and ErrorHandler :: "nat \<Rightarrow> forwarder \<Rightarrow> URL \<Rightarrow> Request \<Rightarrow> World \<Rightarrow> (panic + World) option"
where
  "lb n fwd r w =
     (case GetNextPeer (serverPool w) of
        Inl p \<Rightarrow> Some (Inl p)
      | Inr (peer, s) \<Rightarrow>
          (case peer of
             Some b \<Rightarrow> ServeHTTP n fwd (Url b) r (w\<lparr>serverPool := s\<rparr>)
           | None \<Rightarrow>
               Some (Inr (w\<lparr>serverPool := s,
                             events := events w @ [HttpError ''Service not available'' 503]\<rparr>))))"
| "ServeHTTP 0 fwd u r w = None"
| "ServeHTTP (Suc n) fwd u r w =
     (let w1 = w\<lparr>events := events w @ [Forward u r]\<rparr>
      in if fwd (length (filter is_Forward (events w))) u
         then Some (Inr (w1\<lparr>events := events w1 @ [Delivered u]\<rparr>))
         else ErrorHandler n fwd u r w1)"
| "ErrorHandler n fwd serverUrl r w =
     (let w1 = w\<lparr>events := events w @ [LogProxyError (Host serverUrl)]\<rparr>;
          retries = GetRetryFromContext r
      in case (if retries < 3 then
                 (let w2 = w1\<lparr>events := events w1 @ [After 10]\<rparr>;
                      c = WithValue (ctx r) Retry (AnyInt (retries + 1))
                  in ServeHTTP n fwd serverUrl (WithContext r c) w2)
               else Some (Inr w1)) of
           None \<Rightarrow> None
         | Some (Inl p) \<Rightarrow> Some (Inl p)
         | Some (Inr w3) \<Rightarrow>
             (let w4 = w3\<lparr>serverPool := MarkBackendStatus (serverPool w3) serverUrl False\<rparr>;
                  attemps = GetAttemptsFromContext r;
                  w5 = w4\<lparr>events := events w4 @ [LogAttempt (RemoteAddr r) (Path r) attemps]\<rparr>;
                  c = WithValue (ctx r) Attempts (AnyInt (attemps + 1))
              in lb n fwd (WithContext r c) w5))"

text \<open>Requests served one after the other, and the backends they were forwarded to.\<close>

fun requests :: "nat \<Rightarrow> forwarder \<Rightarrow> Request list \<Rightarrow> World \<Rightarrow> (panic + World) option" where
  "requests n fwd [] w = Some (Inr w)"
| "requests n fwd (r # rs) w =
     (case lb n fwd r w of
        None \<Rightarrow> None
      | Some (Inl p) \<Rightarrow> Some (Inl p)
      | Some (Inr w1) \<Rightarrow> requests n fwd rs w1)"

fun routed :: "event list \<Rightarrow> URL list" where
  "routed [] = []"
| "routed (Forward u r # es) = u # routed es"
| "routed (e # es) = routed es"

text \<open>Where the requests that returned were forwarded, in order.\<close>

definition routes :: "(panic + World) option \<Rightarrow> URL list option" where
  "routes res = (case res of Some (Inr w) \<Rightarrow> Some (routed (events w)) | _ \<Rightarrow> None)"

section \<open>Health check\<close>

text \<open>
  \<^verbatim>\<open>isBackendAlive\<close> dials the host over TCP with a timeout of two seconds (given
  here in milliseconds) and reports whether the dial returned no error; a connection
  that was opened is closed on return. The ticker loop of \<^verbatim>\<open>healthCheck\<close>, which
  starts a pass every two minutes and never returns, is not part of the model.
\<close>

definition isBackendAlive :: "dialer \<Rightarrow> URL \<Rightarrow> event list \<Rightarrow> bool \<times> event list" where
  "isBackendAlive dial u es =
     (let timeout = 2 * 1000;
          es1 = es @ [DialTimeout ''tcp'' (Host u) timeout]
      in case dial (length (filter is_DialTimeout es)) (Host u) of
           Some err \<Rightarrow> (False, es1 @ [LogUnreachable err])
         | None \<Rightarrow> (True, es1 @ [ConnClose (Host u)]))"

fun HeadthCheck_loop :: "dialer \<Rightarrow> Backend list \<Rightarrow> event list \<Rightarrow> Backend list \<times> event list" where
  "HeadthCheck_loop dial [] es = ([], es)"
| "HeadthCheck_loop dial (b # bs) es =
     (let status = ''up'';
          (alive, es1) = isBackendAlive dial (Url b) es;
          b' = SetAlive b alive;
          status = (if \<not> alive then ''down'' else status);
          es2 = es1 @ [LogStatus (String (Url b)) status];
          (bs', es3) = HeadthCheck_loop dial bs es2
      in (b' # bs', es3))"

definition HeadthCheck :: "dialer \<Rightarrow> World \<Rightarrow> World" where
  "HeadthCheck dial w =
     (let (bs, es) = HeadthCheck_loop dial (backends (serverPool w)) (events w)
      in w\<lparr>serverPool := (serverPool w)\<lparr>backends := bs\<rparr>, events := es\<rparr>)"


section \<open>Auxiliary notions\<close>

text \<open>
  \<open>evolves w w'\<close>: the world \<open>w'\<close> has the backends of \<open>w\<close>, with the same URLs in the
  same order, none alive that was dead in \<open>w\<close>, and the events of \<open>w\<close> as a prefix of its
  own. This is how serving a request changes the world when no health check runs in
  between.
\<close>

definition evolves :: "World \<Rightarrow> World \<Rightarrow> bool" where
  "evolves w w' \<longleftrightarrow>
     list_all2 (\<lambda>b b'. Url b' = Url b \<and> (Alive b' \<longrightarrow> Alive b))
       (backends (serverPool w)) (backends (serverPool w'))
     \<and> prefix (events w) (events w')"

text \<open>
  The configurations that \<^verbatim>\<open>main\<close> is meant for: at least one backend and no URL
  configured twice. (The length of a slice is an \<^verbatim>\<open>int\<close>.)
\<close>

definition well_formed :: "ServerPool \<Rightarrow> bool" where
  "well_formed s \<longleftrightarrow>
     backends s \<noteq> [] \<and> length (backends s) < 2 ^ 63
     \<and> distinct (map (\<lambda>b. String (Url b)) (backends s))"

text \<open>The positions of the alive backends, and of those whose URL string is not that of \<open>u\<close>.\<close>

definition alive_at :: "ServerPool \<Rightarrow> nat set" where
  "alive_at s = {i. i < length (backends s) \<and> Alive (backends s ! i)}"

definition alive_except :: "ServerPool \<Rightarrow> URL \<Rightarrow> nat set" where
  "alive_except s u = {i \<in> alive_at s. String (Url (backends s ! i)) \<noteq> String u}"

section \<open>An example configuration\<close>

text \<open>Three backends and a fresh request, used to run the definitions on concrete input.\<close>

definition urlA :: URL where
  "urlA = \<lparr>String = ''http://a:8081'', Host = ''a:8081''\<rparr>"

definition urlB :: URL where
  "urlB = \<lparr>String = ''http://b:8082'', Host = ''b:8082''\<rparr>"

definition urlC :: URL where
  "urlC = \<lparr>String = ''http://c:8083'', Host = ''c:8083''\<rparr>"

definition fresh :: Request where
  "fresh = \<lparr>ctx = [], RemoteAddr = ''10.0.0.1:5000'', Path = ''/''\<rparr>"

definition pool3 :: "bool \<Rightarrow> bool \<Rightarrow> bool \<Rightarrow> ServerPool" where
  "pool3 a b c =
     \<lparr>backends = [\<lparr>Url = urlA, Alive = a\<rparr>, \<lparr>Url = urlB, Alive = b\<rparr>, \<lparr>Url = urlC, Alive = c\<rparr>],
      current = 0\<rparr>"

text \<open>A forwarder that completes every round trip, and one that fails every one.\<close>

definition delivering :: forwarder where
  "delivering k u = True"

definition failing :: forwarder where
  "failing k u = False"

section \<open>Facts about machine integers\<close>

declare GetNextPeer_loop.simps [simp del]

declare lb.simps [simp del]

declare ErrorHandler.simps [simp del]

lemma unat_of_nat_len:
  assumes "n < 2 ^ 63"
  shows "unat (word_of_nat n :: 64 word) = n"
  using assms by (simp add: unat_of_nat take_bit_nat_eq_self)

lemma sint_small:
  fixes w :: "64 word"
  assumes "unat w < 2 ^ 63"
  shows "sint w = int (unat w)"
proof -
  have "int (unat w) < int (2 ^ 63)" using assms by (simp only: of_nat_less_iff)
  then have "uint w < 2 ^ 63" by (simp only: uint_nat of_nat_power of_nat_numeral)
  moreover have "- (2 ^ 63) \<le> uint w"
    by (rule order_trans [of _ 0]) simp_all
  ultimately have eq: "signed_take_bit 63 (uint w) = uint w"
    by (rule signed_take_bit_int_eq_self [rotated])
  have len: "LENGTH(64) - Suc 0 = 63" by simp
  have "sint w = signed_take_bit (LENGTH(64) - Suc 0) (uint w)" by (rule sint_uint)
  also have "\<dots> = uint w" by (simp only: len eq)
  finally show ?thesis by (simp only: uint_nat)
qed

section \<open>The cursor\<close>

lemma NextIndex_ok:
  assumes "backends s \<noteq> []" and "length (backends s) < 2 ^ 63"
  shows "NextIndex s =
           Inr (int (unat (current s + 1) mod length (backends s)), s\<lparr>current := current s + 1\<rparr>)"
proof -
  let ?n = "word_of_nat (length (backends s)) :: 64 word"
  have un: "unat ?n = length (backends s)" using assms(2) by (rule unat_of_nat_len)
  then have nz: "?n \<noteq> 0" using assms(1) by (metis unat_0 length_0_conv)
  have m: "unat ((current s + 1) mod ?n) = unat (current s + 1) mod length (backends s)"
    by (simp add: unat_mod un)
  have "unat (current s + 1) mod length (backends s) < length (backends s)"
    using assms(1) by (intro mod_less_divisor) simp
  then have "unat ((current s + 1) mod ?n) < 2 ^ 63" using m assms(2) by (simp only: less_trans)
  then have "sint ((current s + 1) mod ?n) = int (unat (current s + 1) mod length (backends s))"
    using m by (simp add: sint_small)
  then show ?thesis using nz by (simp add: NextIndex_def Let_def)
qed

lemma NextIndex_empty: "backends s = [] \<Longrightarrow> NextIndex s = Inl IntegerDivideByZero"
  by (simp add: NextIndex_def)

text \<open>
  C6. For a pool with at least one backend, every index returned by \<^verbatim>\<open>NextIndex\<close>, in
  any sequence of calls, is at least 0 and less than the number of backends, and no call
  panics on the remainder: the divisor is not zero. Concurrent calls are atomic
  additions, so what they return is what some sequence of calls returns. The length of a
  Go slice is an \<^verbatim>\<open>int\<close>, hence less than \<open>2^63\<close>.
\<close>

theorem NextIndex_in_range:
  assumes "backends s \<noteq> []" and "length (backends s) < 2 ^ 63"
  shows "\<exists>is s'. NextIndex_calls n s = Inr (is, s') \<and> length is = n
           \<and> backends s' = backends s
           \<and> (\<forall>i \<in> set is. 0 \<le> i \<and> i < int (length (backends s)))"
  using assms
proof (induction n arbitrary: s)
  case 0
  then show ?case by simp
next
  case (Suc n)
  let ?s1 = "s\<lparr>current := current s + 1\<rparr>"
  let ?i = "int (unat (current s + 1) mod length (backends s))"
  have step: "NextIndex s = Inr (?i, ?s1)"
    using Suc.prems by (rule NextIndex_ok)
  have "backends ?s1 \<noteq> []" and "length (backends ?s1) < 2 ^ 63"
    using Suc.prems by simp_all
  then obtain "is" s' where rest: "NextIndex_calls n ?s1 = Inr (is, s')" "length is = n"
      "backends s' = backends ?s1" "\<forall>i \<in> set is. 0 \<le> i \<and> i < int (length (backends ?s1))"
    using Suc.IH [of ?s1] by blast
  have "unat (current s + 1) mod length (backends s) < length (backends s)"
    using Suc.prems(1) by (intro mod_less_divisor) simp
  then have "0 \<le> ?i \<and> ?i < int (length (backends s))" by simp
  then show ?case using step rest by simp
qed

theorem NextIndex_in_range_witness:
  "\<exists>is s'. NextIndex_calls 5 (pool3 True True True) = Inr (is, s') \<and> length is = 5
           \<and> (\<forall>i \<in> set is. 0 \<le> i \<and> i < 3)"
proof -
  have l: "length (backends (pool3 True True True)) = 3" by (simp add: pool3_def)
  have "backends (pool3 True True True) \<noteq> []" by (simp add: pool3_def)
  moreover have "length (backends (pool3 True True True)) < 2 ^ 63" by (simp only: l) simp
  ultimately show ?thesis
    using NextIndex_in_range [of "pool3 True True True" 5] by (simp only: l) auto
qed

section \<open>The scan for an alive backend\<close>

lemma rem_nonneg:
  assumes "0 \<le> a" and "0 < b"
  shows "rem a b = Inr (a mod b)"
  using assms by (simp add: rem_def smod_int_alt_def sgn_if)

lemma index_mod:
  assumes "xs \<noteq> []"
  shows "index xs (i mod int (length xs)) = Inr (xs ! nat (i mod int (length xs)))"
  using assms by (simp add: index_def)

lemma GetNextPeer_loop_step:
  assumes "backends s \<noteq> []" and "0 \<le> i"
  shows "GetNextPeer_loop s nxt l i =
     (if i < l then
        (if Alive (backends s ! nat (i mod int (length (backends s)))) then
           Inr (Some (backends s ! nat (i mod int (length (backends s)))),
                if i \<noteq> nxt then s\<lparr>current := word_of_int (i mod int (length (backends s)))\<rparr> else s)
         else GetNextPeer_loop s nxt l (i + 1))
      else Inr (None, s))"
proof -
  have "0 < int (length (backends s))" using assms(1) by simp
  then have r: "rem i (int (length (backends s))) = Inr (i mod int (length (backends s)))"
    using assms(2) by (simp add: rem_nonneg)
  show ?thesis
    by (subst GetNextPeer_loop.simps) (simp add: r index_mod [OF assms(1)] IsAlive_def)
qed

lemma GetNextPeer_loop_none:
  assumes "backends s \<noteq> []" and "0 \<le> i"
    and "\<And>j. i \<le> j \<Longrightarrow> j < l \<Longrightarrow> \<not> Alive (backends s ! nat (j mod int (length (backends s))))"
  shows "GetNextPeer_loop s nxt l i = Inr (None, s)"
  using assms
proof (induction s nxt l i rule: GetNextPeer_loop.induct)
  case (1 s nxt l i)
  show ?case
  proof (cases "i < l")
    case False
    then show ?thesis using "1.prems" by (simp add: GetNextPeer_loop_step)
  next
    case True
    have dead: "\<not> Alive (backends s ! nat (i mod int (length (backends s))))"
      using "1.prems"(3) [of i] True by simp
    have r: "rem i (int (length (backends s))) = Inr (i mod int (length (backends s)))"
      using "1.prems" by (simp add: rem_nonneg)
    have "GetNextPeer_loop s nxt l (i + 1) = Inr (None, s)"
      using True r index_mod [OF "1.prems"(1), of i] dead "1.prems"
      by (intro "1.IH") (auto simp: IsAlive_def)
    then show ?thesis using True dead "1.prems" by (simp add: GetNextPeer_loop_step)
  qed
qed

lemma GetNextPeer_loop_first:
  assumes "backends s \<noteq> []" and "0 \<le> i" and "i \<le> k" and "k < l"
    and "Alive (backends s ! nat (k mod int (length (backends s))))"
    and "\<And>j. i \<le> j \<Longrightarrow> j < k \<Longrightarrow> \<not> Alive (backends s ! nat (j mod int (length (backends s))))"
  shows "GetNextPeer_loop s nxt l i =
           Inr (Some (backends s ! nat (k mod int (length (backends s)))),
                if k \<noteq> nxt then s\<lparr>current := word_of_int (k mod int (length (backends s)))\<rparr> else s)"
  using assms
proof (induction s nxt l i rule: GetNextPeer_loop.induct)
  case (1 s nxt l i)
  show ?case
  proof (cases "i = k")
    case True
    then show ?thesis using "1.prems" by (simp add: GetNextPeer_loop_step)
  next
    case False
    then have lt: "i < k" using "1.prems" by simp
    have dead: "\<not> Alive (backends s ! nat (i mod int (length (backends s))))"
      using "1.prems"(6) [of i] lt by simp
    have r: "rem i (int (length (backends s))) = Inr (i mod int (length (backends s)))"
      using "1.prems" by (simp add: rem_nonneg)
    have "GetNextPeer_loop s nxt l (i + 1) =
           Inr (Some (backends s ! nat (k mod int (length (backends s)))),
                if k \<noteq> nxt then s\<lparr>current := word_of_int (k mod int (length (backends s)))\<rparr> else s)"
      using lt r index_mod [OF "1.prems"(1), of i] dead "1.prems"
      by (intro "1.IH") (auto simp: IsAlive_def)
    then show ?thesis using lt dead "1.prems" by (simp add: GetNextPeer_loop_step)
  qed
qed

text \<open>What every scan returns.\<close>

lemma GetNextPeer_loop_result:
  assumes "backends s \<noteq> []" and "0 \<le> i"
  shows "\<exists>peer s'. GetNextPeer_loop s nxt l i = Inr (peer, s') \<and> backends s' = backends s
           \<and> (peer = None \<longrightarrow> s' = s)
           \<and> (\<forall>b. peer = Some b \<longrightarrow>
                 (\<exists>idx < length (backends s). b = backends s ! idx \<and> Alive (backends s ! idx)))"
  using assms
proof (induction s nxt l i rule: GetNextPeer_loop.induct)
  case (1 s nxt l i)
  let ?idx = "nat (i mod int (length (backends s)))"
  have pos: "0 < int (length (backends s))" using "1.prems" by simp
  have bound: "?idx < length (backends s)"
    using pos by (simp add: nat_less_iff)
  show ?case
  proof (cases "i < l")
    case False
    then show ?thesis using "1.prems" by (simp add: GetNextPeer_loop_step)
  next
    case True
    show ?thesis
    proof (cases "Alive (backends s ! ?idx)")
      case True
      then show ?thesis using \<open>i < l\<close> "1.prems" bound
        by (auto simp: GetNextPeer_loop_step)
    next
      case False
      have r: "rem i (int (length (backends s))) = Inr (i mod int (length (backends s)))"
        using "1.prems" pos by (simp add: rem_nonneg)
      have "\<exists>peer s'. GetNextPeer_loop s nxt l (i + 1) = Inr (peer, s') \<and> backends s' = backends s
           \<and> (peer = None \<longrightarrow> s' = s)
           \<and> (\<forall>b. peer = Some b \<longrightarrow>
                 (\<exists>idx < length (backends s). b = backends s ! idx \<and> Alive (backends s ! idx)))"
        using \<open>i < l\<close> r index_mod [OF "1.prems"(1), of i] False "1.prems"
        by (intro "1.IH") (auto simp: IsAlive_def)
      then show ?thesis using \<open>i < l\<close> False "1.prems" by (simp add: GetNextPeer_loop_step)
    qed
  qed
qed

lemma GetNextPeer_unfold:
  assumes "backends s \<noteq> []" and "length (backends s) < 2 ^ 63"
  shows "GetNextPeer s =
           GetNextPeer_loop (s\<lparr>current := current s + 1\<rparr>)
             (int (unat (current s + 1) mod length (backends s)))
             (int (length (backends s)) + int (unat (current s + 1) mod length (backends s)))
             (int (unat (current s + 1) mod length (backends s)))"
  by (simp add: GetNextPeer_def NextIndex_ok [OF assms])

lemma GetNextPeer_empty: "backends s = [] \<Longrightarrow> GetNextPeer s = Inl IntegerDivideByZero"
  by (simp add: GetNextPeer_def NextIndex_empty)

lemma GetNextPeer_result:
  assumes "backends s \<noteq> []" and "length (backends s) < 2 ^ 63"
  shows "\<exists>peer s'. GetNextPeer s = Inr (peer, s') \<and> backends s' = backends s
           \<and> (peer = None \<longrightarrow> s' = s\<lparr>current := current s + 1\<rparr>)
           \<and> (\<forall>b. peer = Some b \<longrightarrow>
                 (\<exists>idx < length (backends s). b = backends s ! idx \<and> Alive (backends s ! idx)))"
proof -
  let ?s1 = "s\<lparr>current := current s + 1\<rparr>"
  have "backends ?s1 \<noteq> []" using assms(1) by simp
  from GetNextPeer_loop_result [OF this, of "int (unat (current s + 1) mod length (backends s))"
      "int (unat (current s + 1) mod length (backends s))"
      "int (length (backends s)) + int (unat (current s + 1) mod length (backends s))"]
  show ?thesis by (simp add: GetNextPeer_unfold [OF assms])
qed

lemma GetNextPeer_all_dead:
  assumes "backends s \<noteq> []" and "length (backends s) < 2 ^ 63"
    and "\<forall>b \<in> set (backends s). \<not> Alive b"
  shows "GetNextPeer s = Inr (None, s\<lparr>current := current s + 1\<rparr>)"
proof -
  let ?s1 = "s\<lparr>current := current s + 1\<rparr>"
  have ne: "backends ?s1 \<noteq> []" using assms(1) by simp
  have "\<not> Alive (backends ?s1 ! nat (j mod int (length (backends ?s1))))" for j
  proof -
    have "nat (j mod int (length (backends s))) < length (backends s)"
      using assms(1) by (simp add: nat_less_iff)
    then show ?thesis using assms(3) by simp
  qed
  then have "GetNextPeer_loop ?s1 nxt l (int i) = Inr (None, ?s1)" for nxt l i
    by (intro GetNextPeer_loop_none [OF ne]) simp_all
  then show ?thesis by (simp add: GetNextPeer_unfold [OF assms(1,2)])
qed

text \<open>Found at offset k from the starting index.\<close>

lemma GetNextPeer_found:
  assumes ne: "backends s \<noteq> []" and len: "length (backends s) < 2 ^ 63"
    and k: "k < length (backends s)"
    and alive: "Alive (backends s ! ((unat (current s + 1) mod length (backends s) + k) mod length (backends s)))"
    and dead: "\<And>j. j < k \<Longrightarrow>
        \<not> Alive (backends s ! ((unat (current s + 1) mod length (backends s) + j) mod length (backends s)))"
  shows "GetNextPeer s =
           Inr (Some (backends s ! ((unat (current s + 1) mod length (backends s) + k) mod length (backends s))),
                if k \<noteq> 0
                then s\<lparr>current := word_of_nat ((unat (current s + 1) mod length (backends s) + k) mod length (backends s))\<rparr>
                else s\<lparr>current := current s + 1\<rparr>)"
proof -
  let ?n = "length (backends s)"
  let ?nx = "unat (current s + 1) mod ?n"
  let ?s1 = "s\<lparr>current := current s + 1\<rparr>"
  have conv: "nat (int (?nx + j) mod int (length (backends ?s1))) = (?nx + j) mod ?n" for j
    by (simp add: zmod_int [symmetric] del: of_nat_add)
  have ne1: "backends ?s1 \<noteq> []" using ne by simp
  have a: "Alive (backends ?s1 ! nat (int (?nx + k) mod int (length (backends ?s1))))"
    using alive by (simp only: conv) simp
  have d: "\<not> Alive (backends ?s1 ! nat (j mod int (length (backends ?s1))))"
    if "int ?nx \<le> j" "j < int (?nx + k)" for j
  proof -
    define j' where "j' = nat (j - int ?nx)"
    have j': "j = int (?nx + j')" "j' < k"
      using that by (simp_all add: j'_def)
    show ?thesis using dead [OF j'(2)] by (simp only: j'(1) conv) simp
  qed
  have "GetNextPeer_loop ?s1 (int ?nx) (int ?n + int ?nx) (int ?nx) =
          Inr (Some (backends ?s1 ! nat (int (?nx + k) mod int (length (backends ?s1)))),
               if int (?nx + k) \<noteq> int ?nx
               then ?s1\<lparr>current := word_of_int (int (?nx + k) mod int (length (backends ?s1)))\<rparr>
               else ?s1)"
    using k by (intro GetNextPeer_loop_first [OF ne1 _ _ _ a d]) simp_all
  moreover have "word_of_int (int (?nx + k) mod int (length (backends ?s1)))
        = (word_of_nat ((?nx + k) mod ?n) :: 64 word)"
    by (simp add: zmod_int [symmetric] del: of_nat_add)
  ultimately show ?thesis
    by (simp only: GetNextPeer_unfold [OF ne len] conv) (simp del: of_nat_add)
qed

lemma GetNextPeer_calls_result:
  assumes "backends s \<noteq> []" and "length (backends s) < 2 ^ 63"
  shows "\<exists>peers s'. GetNextPeer_calls n s = Inr (peers, s') \<and> length peers = n
           \<and> backends s' = backends s
           \<and> (\<forall>b. Some b \<in> set peers \<longrightarrow>
                 (\<exists>idx < length (backends s). b = backends s ! idx \<and> Alive (backends s ! idx)))"
  using assms
proof (induction n arbitrary: s)
  case 0
  then show ?case by simp
next
  case (Suc n)
  from GetNextPeer_result [OF Suc.prems]
  obtain peer s1 where first: "GetNextPeer s = Inr (peer, s1)" and b1: "backends s1 = backends s"
    and p1: "\<forall>b. peer = Some b \<longrightarrow>
         (\<exists>idx < length (backends s). b = backends s ! idx \<and> Alive (backends s ! idx))"
    by blast
  have "backends s1 \<noteq> []" and "length (backends s1) < 2 ^ 63"
    using Suc.prems by (simp_all add: b1)
  from Suc.IH [OF this]
  obtain peers s' where rest: "GetNextPeer_calls n s1 = Inr (peers, s')"
    and ln: "length peers = n" and b2: "backends s' = backends s1"
    and p2: "\<forall>b. Some b \<in> set peers \<longrightarrow>
         (\<exists>idx < length (backends s1). b = backends s1 ! idx \<and> Alive (backends s1 ! idx))"
    by blast
  have all: "GetNextPeer_calls (Suc n) s = Inr (peer # peers, s')"
    using first rest by simp
  have "\<forall>b. Some b \<in> set (peer # peers) \<longrightarrow>
         (\<exists>idx < length (backends s). b = backends s ! idx \<and> Alive (backends s ! idx))"
  proof (intro allI impI)
    fix b assume "Some b \<in> set (peer # peers)"
    then consider "peer = Some b" | "Some b \<in> set peers" by auto
    then show "\<exists>idx < length (backends s). b = backends s ! idx \<and> Alive (backends s ! idx)"
    proof cases
      case 1 then show ?thesis using p1 by blast
    next
      case 2 then show ?thesis using p2 unfolding b1 by blast
    qed
  qed
  moreover have "length (peer # peers) = Suc n" using ln by simp
  moreover have "backends s' = backends s" using b2 b1 by simp
  ultimately show ?case using all by blast
qed

lemma GetNextPeer_calls_all_dead:
  assumes "backends s \<noteq> []" and "length (backends s) < 2 ^ 63"
    and "\<forall>b \<in> set (backends s). \<not> Alive b"
  shows "GetNextPeer_calls n s = Inr (replicate n None, s\<lparr>current := current s + word_of_nat n\<rparr>)"
  using assms
proof (induction n arbitrary: s)
  case 0
  then show ?case by simp
next
  case (Suc n)
  let ?s1 = "s\<lparr>current := current s + 1\<rparr>"
  have "GetNextPeer_calls n ?s1 = Inr (replicate n None, ?s1\<lparr>current := current ?s1 + word_of_nat n\<rparr>)"
    using Suc.prems by (intro Suc.IH) simp_all
  moreover have "GetNextPeer s = Inr (None, ?s1)"
    using Suc.prems by (rule GetNextPeer_all_dead)
  moreover have "current s + 1 + word_of_nat n = current s + word_of_nat (Suc n)"
    by (simp add: add.assoc add.commute)
  ultimately show ?case by simp
qed

lemma routed_append: "routed (es @ es') = routed es @ routed es'"
  by (induction es rule: routed.induct) simp_all

lemma lb_all_dead:
  assumes "backends (serverPool w) \<noteq> []" and "length (backends (serverPool w)) < 2 ^ 63"
    and "\<forall>b \<in> set (backends (serverPool w)). \<not> Alive b"
  shows "lb n fwd r w =
           Some (Inr (w\<lparr>serverPool := (serverPool w)\<lparr>current := current (serverPool w) + 1\<rparr>,
                        events := events w @ [HttpError ''Service not available'' 503]\<rparr>))"
proof -
  have "GetNextPeer (serverPool w) = Inr (None, (serverPool w)\<lparr>current := current (serverPool w) + 1\<rparr>)"
    using assms by (rule GetNextPeer_all_dead)
  then show ?thesis by (simp add: lb.simps)
qed

lemma pool3_small: "length (backends (pool3 a b c)) < 2 ^ 63"
proof -
  have "length (backends (pool3 a b c)) = 3" by (simp add: pool3_def)
  then show ?thesis by simp
qed

lemma pool3_nonempty: "backends (pool3 a b c) \<noteq> []"
  by (simp add: pool3_def)

text \<open>
  C4. \<^verbatim>\<open>GetNextPeer\<close> never returns a backend whose alive flag is false, however often
  it is called, as long as the flag is not set again: every backend it returns is an
  entry of the pool whose flag was true when the scan read it. The calls leave the
  backends as they are, and on a pool that is not empty none of them panics.
\<close>

theorem GetNextPeer_only_alive:
  assumes "length (backends s) < 2 ^ 63"
  shows "(backends s \<noteq> [] \<longrightarrow> (\<exists>peers s'. GetNextPeer_calls n s = Inr (peers, s')))
       \<and> (\<forall>peers s'. GetNextPeer_calls n s = Inr (peers, s') \<longrightarrow>
             length peers = n \<and> backends s' = backends s
             \<and> (\<forall>b. Some b \<in> set peers \<longrightarrow>
                   (\<exists>idx < length (backends s). b = backends s ! idx \<and> Alive (backends s ! idx)))
             \<and> (\<forall>B. \<not> Alive B \<longrightarrow> Some B \<notin> set peers))"
proof (cases "backends s = []")
  case True
  show ?thesis
  proof (cases n)
    case 0
    then show ?thesis by simp
  next
    case (Suc m)
    then show ?thesis using True by (simp add: GetNextPeer_empty)
  qed
next
  case False
  from GetNextPeer_calls_result [OF False assms, of n]
  obtain peers s' where r: "GetNextPeer_calls n s = Inr (peers, s')" "length peers = n"
    "backends s' = backends s"
    and p: "\<forall>b. Some b \<in> set peers \<longrightarrow>
         (\<exists>idx < length (backends s). b = backends s ! idx \<and> Alive (backends s ! idx))"
    by blast
  have "\<forall>B. \<not> Alive B \<longrightarrow> Some B \<notin> set peers" using p by blast
  then show ?thesis using r p by simp
qed

theorem GetNextPeer_only_alive_witness:
  "\<exists>peers s'. GetNextPeer_calls 4 (pool3 True False True) = Inr (peers, s') \<and> length peers = 4
     \<and> Some \<lparr>Url = urlB, Alive = False\<rparr> \<notin> set peers"
proof -
  have d: "\<not> Alive \<lparr>Url = urlB, Alive = False\<rparr>" by simp
  show ?thesis
    using GetNextPeer_only_alive [OF pool3_small, of True False True 4] pool3_nonempty [of True False True] d
    by blast
qed

text \<open>
  C5. If no backend of the pool is alive, every call of \<^verbatim>\<open>GetNextPeer\<close> returns none,
  and \<^verbatim>\<open>lb\<close> answers with the error response 503 ``Service not available'' without
  invoking the forwarder: no \<open>Forward\<close> event is added. The pool holds at least one
  backend, as construction by \<^verbatim>\<open>main\<close> guarantees.
\<close>

theorem all_dead_unavailable:
  assumes "backends (serverPool w) \<noteq> []" and "length (backends (serverPool w)) < 2 ^ 63"
    and "\<forall>b \<in> set (backends (serverPool w)). \<not> Alive b"
  shows "GetNextPeer_calls k (serverPool w) =
           Inr (replicate k None, (serverPool w)\<lparr>current := current (serverPool w) + word_of_nat k\<rparr>)
       \<and> lb n fwd r w =
           Some (Inr (w\<lparr>serverPool := (serverPool w)\<lparr>current := current (serverPool w) + 1\<rparr>,
                        events := events w @ [HttpError ''Service not available'' 503]\<rparr>))
       \<and> (\<exists>w'. lb n fwd r w = Some (Inr w') \<and> routed (events w') = routed (events w)
           \<and> filter is_Forward (events w') = filter is_Forward (events w))"
proof -
  have lb: "lb n fwd r w =
           Some (Inr (w\<lparr>serverPool := (serverPool w)\<lparr>current := current (serverPool w) + 1\<rparr>,
                        events := events w @ [HttpError ''Service not available'' 503]\<rparr>))"
    using assms by (rule lb_all_dead)
  have "\<exists>w'. lb n fwd r w = Some (Inr w') \<and> routed (events w') = routed (events w)
           \<and> filter is_Forward (events w') = filter is_Forward (events w)"
    unfolding lb by (simp add: routed_append)
  then show ?thesis using lb GetNextPeer_calls_all_dead [OF assms] by blast
qed

theorem all_dead_unavailable_witness:
  "GetNextPeer_calls 2 (pool3 False False False) =
      Inr ([None, None], (pool3 False False False)\<lparr>current := 2\<rparr>)
   \<and> lb 0 (\<lambda>k u. True) fresh \<lparr>serverPool = pool3 False False False, events = []\<rparr> =
      Some (Inr \<lparr>serverPool = (pool3 False False False)\<lparr>current := 1\<rparr>,
                 events = [HttpError ''Service not available'' 503]\<rparr>)"
proof -
  let ?w = "\<lparr>serverPool = pool3 False False False, events = []\<rparr>"
  have 1: "backends (serverPool ?w) \<noteq> []" by (simp add: pool3_def)
  have 2: "length (backends (serverPool ?w)) < 2 ^ 63" using pool3_small by simp
  have 3: "\<forall>b \<in> set (backends (serverPool ?w)). \<not> Alive b" by (simp add: pool3_def)
  have c: "current (pool3 False False False) = 0" by (simp add: pool3_def)
  show ?thesis
    using all_dead_unavailable [OF 1 2 3, of 2 0 "\<lambda>k u. True" fresh]
    by (simp add: c numeral_2_eq_2)
qed

text \<open>
  C7. \<^verbatim>\<open>GetNextPeer\<close> starts its scan at the index that \<^verbatim>\<open>NextIndex\<close> returns. If the
  backend there is alive, it is returned and the cursor keeps the incremented value. If
  the first alive backend is found \<open>k > 0\<close> positions later, it is returned and the
  cursor is overwritten with its index, taken modulo the number of backends.
\<close>

theorem GetNextPeer_cursor:
  assumes "backends s \<noteq> []" and "length (backends s) < 2 ^ 63"
  shows "NextIndex s = Inr (int (unat (current s + 1) mod length (backends s)),
                            s\<lparr>current := current s + 1\<rparr>)
       \<and> (Alive (backends s ! (unat (current s + 1) mod length (backends s))) \<longrightarrow>
            GetNextPeer s =
              Inr (Some (backends s ! (unat (current s + 1) mod length (backends s))),
                   s\<lparr>current := current s + 1\<rparr>))
       \<and> (\<forall>k. 0 < k \<and> k < length (backends s)
              \<and> Alive (backends s ! ((unat (current s + 1) mod length (backends s) + k)
                                        mod length (backends s)))
              \<and> (\<forall>j < k. \<not> Alive (backends s ! ((unat (current s + 1) mod length (backends s) + j)
                                                    mod length (backends s)))) \<longrightarrow>
            GetNextPeer s =
              Inr (Some (backends s ! ((unat (current s + 1) mod length (backends s) + k)
                                         mod length (backends s))),
                   s\<lparr>current := word_of_nat ((unat (current s + 1) mod length (backends s) + k)
                                               mod length (backends s))\<rparr>))"
proof (intro conjI impI allI)
  show "NextIndex s = Inr (int (unat (current s + 1) mod length (backends s)),
                            s\<lparr>current := current s + 1\<rparr>)"
    using assms by (rule NextIndex_ok)
next
  assume a: "Alive (backends s ! (unat (current s + 1) mod length (backends s)))"
  have "0 < length (backends s)" using assms(1) by simp
  from GetNextPeer_found [OF assms this, simplified] a
  show "GetNextPeer s =
              Inr (Some (backends s ! (unat (current s + 1) mod length (backends s))),
                   s\<lparr>current := current s + 1\<rparr>)"
    by simp
next
  fix k
  assume h: "0 < k \<and> k < length (backends s)
              \<and> Alive (backends s ! ((unat (current s + 1) mod length (backends s) + k)
                                        mod length (backends s)))
              \<and> (\<forall>j < k. \<not> Alive (backends s ! ((unat (current s + 1) mod length (backends s) + j)
                                                    mod length (backends s))))"
  then have "GetNextPeer s =
           Inr (Some (backends s ! ((unat (current s + 1) mod length (backends s) + k) mod length (backends s))),
                if k \<noteq> 0
                then s\<lparr>current := word_of_nat ((unat (current s + 1) mod length (backends s) + k) mod length (backends s))\<rparr>
                else s\<lparr>current := current s + 1\<rparr>)"
    by (intro GetNextPeer_found [OF assms]) blast+
  then show "GetNextPeer s =
              Inr (Some (backends s ! ((unat (current s + 1) mod length (backends s) + k)
                                         mod length (backends s))),
                   s\<lparr>current := word_of_nat ((unat (current s + 1) mod length (backends s) + k)
                                               mod length (backends s))\<rparr>)"
    using h by simp
qed

theorem GetNextPeer_cursor_witness:
  "GetNextPeer (pool3 True True True) =
     Inr (Some \<lparr>Url = urlB, Alive = True\<rparr>, (pool3 True True True)\<lparr>current := 1\<rparr>)
   \<and> GetNextPeer (pool3 True False False) =
     Inr (Some \<lparr>Url = urlA, Alive = True\<rparr>, (pool3 True False False)\<lparr>current := 0\<rparr>)"
proof -
  have l: "length (backends (pool3 a b c)) = 3" for a b c by (simp add: pool3_def)
  have c: "current (pool3 a b c) = 0" for a b c by (simp add: pool3_def)
  have n: "backends (pool3 a b c) ! 0 = \<lparr>Url = urlA, Alive = a\<rparr>"
    "backends (pool3 a b c) ! Suc 0 = \<lparr>Url = urlB, Alive = b\<rparr>"
    "backends (pool3 a b c) ! 2 = \<lparr>Url = urlC, Alive = c\<rparr>" for a b c
    by (simp_all add: pool3_def)
  have first: "GetNextPeer (pool3 True True True) =
     Inr (Some \<lparr>Url = urlB, Alive = True\<rparr>, (pool3 True True True)\<lparr>current := 1\<rparr>)"
    using GetNextPeer_cursor [OF pool3_nonempty pool3_small, of True True True,
        THEN conjunct2, THEN conjunct1]
    by (simp add: l c n)
  have d: "\<forall>j<2. \<not> Alive (backends (pool3 True False False) ! (Suc j mod 3))"
    by (simp add: less_Suc_eq numeral_2_eq_2 n [unfolded numeral_2_eq_2])
  have later: "GetNextPeer (pool3 True False False) =
     Inr (Some \<lparr>Url = urlA, Alive = True\<rparr>, (pool3 True False False)\<lparr>current := 0\<rparr>)"
    using GetNextPeer_cursor [OF pool3_nonempty pool3_small, of True False False,
        THEN conjunct2, THEN conjunct2, THEN spec, of 2] d
    by (simp add: l c n)
  show ?thesis using first later by simp
qed

section \<open>Round robin\<close>

lemma unat_plus_one:
  fixes c :: "64 word"
  assumes "unat c + 1 < 2 ^ 64"
  shows "unat (c + 1) = unat c + 1"
proof -
  have "unat c + unat (1 :: 64 word) < 2 ^ LENGTH(64)" using assms by simp
  then have "unat (c + 1) = unat c + unat (1 :: 64 word)" by (simp only: unat_add_lem)
  then show ?thesis by simp
qed

lemma GetNextPeer_calls_all_alive:
  assumes "backends s \<noteq> []" and "length (backends s) < 2 ^ 63"
    and "\<forall>b \<in> set (backends s). Alive b"
    and "unat (current s) + n < 2 ^ 64"
  shows "GetNextPeer_calls n s =
           Inr (map (\<lambda>i. Some (backends s ! ((unat (current s) + 1 + i) mod length (backends s)))) [0..<n],
                s\<lparr>current := current s + word_of_nat n\<rparr>)"
  using assms
proof (induction n arbitrary: s)
  case 0
  then show ?case by simp
next
  case (Suc n)
  let ?N = "length (backends s)"
  let ?s1 = "s\<lparr>current := current s + 1\<rparr>"
  have pos: "0 < ?N" using Suc.prems(1) by simp
  have u: "unat (current s + 1) = unat (current s) + 1"
    using Suc.prems(4) by (intro unat_plus_one) simp
  have "(unat (current s) + 1) mod ?N < ?N" using pos by simp
  then have a: "Alive (backends s ! ((unat (current s) + 1) mod ?N))"
    using Suc.prems(3) nth_mem by blast
  have first: "GetNextPeer s = Inr (Some (backends s ! ((unat (current s) + 1) mod ?N)), ?s1)"
    using GetNextPeer_found [OF Suc.prems(1,2) pos, simplified] a by (simp add: u)
  have "GetNextPeer_calls n ?s1 =
           Inr (map (\<lambda>i. Some (backends ?s1 ! ((unat (current ?s1) + 1 + i) mod length (backends ?s1)))) [0..<n],
                ?s1\<lparr>current := current ?s1 + word_of_nat n\<rparr>)"
    using Suc.prems by (intro Suc.IH) (simp_all add: u)
  moreover have "current s + 1 + word_of_nat n = current s + word_of_nat (Suc n)"
    by (simp add: add.assoc add.commute)
  ultimately have rest: "GetNextPeer_calls n ?s1 =
           Inr (map (\<lambda>i. Some (backends s ! ((unat (current s) + 1 + Suc i) mod ?N))) [0..<n],
                s\<lparr>current := current s + word_of_nat (Suc n)\<rparr>)"
    by (simp add: u del: of_nat_Suc)
  have "GetNextPeer_calls (Suc n) s =
      Inr (Some (backends s ! ((unat (current s) + 1) mod ?N))
             # map (\<lambda>i. Some (backends s ! ((unat (current s) + 1 + Suc i) mod ?N))) [0..<n],
           s\<lparr>current := current s + word_of_nat (Suc n)\<rparr>)"
    by (simp only: GetNextPeer_calls.simps first rest sum.case prod.case)
  also have "Some (backends s ! ((unat (current s) + 1) mod ?N))
             # map (\<lambda>i. Some (backends s ! ((unat (current s) + 1 + Suc i) mod ?N))) [0..<n]
      = map (\<lambda>i. Some (backends s ! ((unat (current s) + 1 + i) mod ?N))) [0..<Suc n]"
    by (simp only: map_upt_Suc [where f = "\<lambda>i. Some (backends s ! ((unat (current s) + 1 + i) mod ?N))"])
      simp
  finally show ?case .
qed

lemma mset_rotate_eq: "mset (rotate m xs) = mset xs"
proof -
  have "mset (rotate m xs) = mset (take (m mod length xs) xs) + mset (drop (m mod length xs) xs)"
    by (simp add: rotate_drop_take union_commute)
  also have "\<dots> = mset (take (m mod length xs) xs @ drop (m mod length xs) xs)"
    by (simp only: mset_append)
  also have "\<dots> = mset xs" by (simp only: append_take_drop_id)
  finally show ?thesis .
qed

lemma map_nth_rotate:
  assumes "xs \<noteq> []"
  shows "map (\<lambda>i. xs ! ((m + i) mod length xs)) [0..<length xs] = rotate m xs"
  by (rule nth_equalityI) (simp_all add: nth_rotate)

text \<open>
  C3. On a pool of \<open>N \<ge> 1\<close> backends that are all alive, \<open>N\<close> consecutive calls of
  \<^verbatim>\<open>GetNextPeer\<close> return the backends in insertion order, cyclically, starting at the
  position after the cursor: the list of the pool rotated by \<open>cursor + 1\<close>. So each
  backend is returned exactly once. From the initial cursor 0 the first call is at cursor
  position 1, and the calls return the pool rotated by one: the backends at positions
  \<open>1, \<dots>, N - 1, 0\<close> (position \<open>1 mod N\<close> first). The cursor does not wrap around
  \<open>2^64\<close> during the calls.
\<close>

theorem round_robin_all_alive:
  assumes "backends s \<noteq> []" and "length (backends s) < 2 ^ 63"
    and "\<forall>b \<in> set (backends s). Alive b"
    and "unat (current s) + length (backends s) < 2 ^ 64"
  shows "\<exists>peers s'. GetNextPeer_calls (length (backends s)) s = Inr (peers, s')
           \<and> peers = map Some (rotate (unat (current s) + 1) (backends s))
           \<and> mset peers = mset (map Some (backends s))
           \<and> s' = s\<lparr>current := current s + word_of_nat (length (backends s))\<rparr>
           \<and> (current s = 0 \<longrightarrow> peers = map Some (rotate 1 (backends s)))"
proof -
  let ?N = "length (backends s)"
  have "map (\<lambda>i. Some (backends s ! ((unat (current s) + 1 + i) mod ?N))) [0..<?N]
      = map Some (map (\<lambda>i. backends s ! ((unat (current s) + 1 + i) mod ?N)) [0..<?N])"
    by simp
  also have "\<dots> = map Some (rotate (unat (current s) + 1) (backends s))"
    by (simp only: map_nth_rotate [OF assms(1)])
  finally have "GetNextPeer_calls ?N s =
      Inr (map Some (rotate (unat (current s) + 1) (backends s)), s\<lparr>current := current s + word_of_nat ?N\<rparr>)"
    using GetNextPeer_calls_all_alive [OF assms] by simp
  moreover have "mset (map Some (rotate (unat (current s) + 1) (backends s))) = mset (map Some (backends s))"
    by (simp only: mset_map mset_rotate_eq)
  ultimately show ?thesis by auto
qed

theorem round_robin_all_alive_witness:
  "GetNextPeer_calls 3 (pool3 True True True) =
     Inr ([Some \<lparr>Url = urlB, Alive = True\<rparr>, Some \<lparr>Url = urlC, Alive = True\<rparr>,
           Some \<lparr>Url = urlA, Alive = True\<rparr>], (pool3 True True True)\<lparr>current := 3\<rparr>)"
proof -
  have l: "length (backends (pool3 True True True)) = 3" by (simp add: pool3_def)
  have c: "current (pool3 True True True) = 0" by (simp add: pool3_def)
  have a: "\<forall>b \<in> set (backends (pool3 True True True)). Alive b" by (simp add: pool3_def)
  have w: "unat (current (pool3 True True True)) + length (backends (pool3 True True True)) < 2 ^ 64"
    by (simp only: l c) simp
  have r: "rotate1 (backends (pool3 True True True))
     = [\<lparr>Url = urlB, Alive = True\<rparr>, \<lparr>Url = urlC, Alive = True\<rparr>, \<lparr>Url = urlA, Alive = True\<rparr>]"
    by (simp add: pool3_def)
  show ?thesis
    using round_robin_all_alive [OF pool3_nonempty pool3_small a w]
    by (simp add: l c r)
qed

section \<open>Three requests on three backends\<close>

lemma configure3: "configure [a, b, c] =
    \<lparr>backends = [\<lparr>Url = a, Alive = True\<rparr>, \<lparr>Url = b, Alive = True\<rparr>, \<lparr>Url = c, Alive = True\<rparr>],
     current = 0\<rparr>"
  by (simp add: configure_def AddBackend_def)

lemma GetNextPeer_three:
  "GetNextPeer \<lparr>backends = [\<lparr>Url = a, Alive = True\<rparr>, \<lparr>Url = b, Alive = True\<rparr>, \<lparr>Url = c, Alive = True\<rparr>],
                      current = cur\<rparr>
       = Inr (Some ([\<lparr>Url = a, Alive = True\<rparr>, \<lparr>Url = b, Alive = True\<rparr>, \<lparr>Url = c, Alive = True\<rparr>]
                     ! (unat (cur + 1) mod 3)),
              \<lparr>backends = [\<lparr>Url = a, Alive = True\<rparr>, \<lparr>Url = b, Alive = True\<rparr>, \<lparr>Url = c, Alive = True\<rparr>],
               current = cur + 1\<rparr>)"
proof -
  let ?bs = "[\<lparr>Url = a, Alive = True\<rparr>, \<lparr>Url = b, Alive = True\<rparr>, \<lparr>Url = c, Alive = True\<rparr>]"
  let ?s = "\<lparr>backends = ?bs, current = cur\<rparr>"
  have ne: "backends ?s \<noteq> []" by simp
  have "length (backends ?s) = 3" by simp
  then have small: "length (backends ?s) < 2 ^ 63" by simp
  have "unat (cur + 1) mod 3 < 3" by simp
  then have "Alive (?bs ! (unat (cur + 1) mod 3))"
    by (metis (no_types, lifting) Backend.select_convs(2) less_Suc_eq less_nat_zero_code nth_Cons_0 nth_Cons_Suc numeral_3_eq_3)
  then show ?thesis
    using GetNextPeer_found [OF ne small, of 0] by simp
qed


lemma lb_three:
  assumes "fwd (length (filter is_Forward es))
             (Url ([\<lparr>Url = a, Alive = True\<rparr>, \<lparr>Url = b, Alive = True\<rparr>, \<lparr>Url = c, Alive = True\<rparr>]
                     ! (unat (cur + 1) mod 3)))"
  shows "lb (Suc n) fwd r
           \<lparr>serverPool = \<lparr>backends = [\<lparr>Url = a, Alive = True\<rparr>, \<lparr>Url = b, Alive = True\<rparr>, \<lparr>Url = c, Alive = True\<rparr>],
                           current = cur\<rparr>, events = es\<rparr>
       = Some (Inr \<lparr>serverPool = \<lparr>backends = [\<lparr>Url = a, Alive = True\<rparr>, \<lparr>Url = b, Alive = True\<rparr>, \<lparr>Url = c, Alive = True\<rparr>],
                           current = cur + 1\<rparr>,
                    events = es @ [Forward (Url ([\<lparr>Url = a, Alive = True\<rparr>, \<lparr>Url = b, Alive = True\<rparr>, \<lparr>Url = c, Alive = True\<rparr>]
                                               ! (unat (cur + 1) mod 3))) r,
                                   Delivered (Url ([\<lparr>Url = a, Alive = True\<rparr>, \<lparr>Url = b, Alive = True\<rparr>, \<lparr>Url = c, Alive = True\<rparr>]
                                               ! (unat (cur + 1) mod 3)))]\<rparr>)"
  using assms by (simp add: lb.simps GetNextPeer_three Let_def)

lemma three_requests_example:
  "requests 1 delivering [fresh, fresh, fresh]
      \<lparr>serverPool = configure [urlA, urlB, urlC], events = []\<rparr>
   = Some (Inr \<lparr>serverPool = (configure [urlA, urlB, urlC])\<lparr>current := 3\<rparr>,
                events = [Forward urlB fresh, Delivered urlB, Forward urlC fresh, Delivered urlC,
                          Forward urlA fresh, Delivered urlA]\<rparr>)"
proof -
  let ?bs = "[\<lparr>Url = urlA, Alive = True\<rparr>, \<lparr>Url = urlB, Alive = True\<rparr>, \<lparr>Url = urlC, Alive = True\<rparr>]"
  have 1: "lb (Suc 0) delivering fresh \<lparr>serverPool = \<lparr>backends = ?bs, current = 0\<rparr>, events = []\<rparr>
        = Some (Inr \<lparr>serverPool = \<lparr>backends = ?bs, current = 1\<rparr>,
                     events = [Forward urlB fresh, Delivered urlB]\<rparr>)"
    using lb_three [of delivering "[]" urlA urlB urlC 0 0 fresh] by (simp add: delivering_def)
  have 2: "lb (Suc 0) delivering fresh \<lparr>serverPool = \<lparr>backends = ?bs, current = 1\<rparr>,
                     events = [Forward urlB fresh, Delivered urlB]\<rparr>
        = Some (Inr \<lparr>serverPool = \<lparr>backends = ?bs, current = 2\<rparr>,
                     events = [Forward urlB fresh, Delivered urlB, Forward urlC fresh, Delivered urlC]\<rparr>)"
    using lb_three [of delivering "[Forward urlB fresh, Delivered urlB]" urlA urlB urlC 1 0 fresh]
    by (simp add: delivering_def)
  have 3: "lb (Suc 0) delivering fresh \<lparr>serverPool = \<lparr>backends = ?bs, current = 2\<rparr>,
                     events = [Forward urlB fresh, Delivered urlB, Forward urlC fresh, Delivered urlC]\<rparr>
        = Some (Inr \<lparr>serverPool = \<lparr>backends = ?bs, current = 3\<rparr>,
                     events = [Forward urlB fresh, Delivered urlB, Forward urlC fresh, Delivered urlC,
                               Forward urlA fresh, Delivered urlA]\<rparr>)"
    using lb_three [of delivering "[Forward urlB fresh, Delivered urlB, Forward urlC fresh, Delivered urlC]"
        urlA urlB urlC 2 0 fresh]
    by (simp add: delivering_def)
  show ?thesis
    by (simp only: One_nat_def requests.simps configure3 1 2 3 option.case sum.case) simp
qed


text \<open>
  C2, as stated: with the backends A, B, C configured in this order, all alive, and the
  cursor at 0, three requests served one after the other are routed to A, then B, then
  C. This is not what happens: the cursor is incremented before the remainder is taken,
  so the first request goes to the backend at index 1.
\<close>

theorem three_requests_not_ABC:
  "routes (requests 1 delivering [fresh, fresh, fresh]
             \<lparr>serverPool = configure [urlA, urlB, urlC], events = []\<rparr>)
     \<noteq> Some [urlA, urlB, urlC]"
  by (simp only: three_requests_example) (simp add: routes_def urlA_def urlB_def)

text \<open>
  C2, amended: with the backends A, B, C configured in this order, all alive, and the
  cursor at 0, three requests served one after the other, each delivered at its first
  forwarding, are routed to B, then C, then A.
\<close>

theorem three_requests_routed:
  assumes "fwd 0 b" and "fwd 1 c" and "fwd 2 a"
  shows "requests (Suc n) fwd [r1, r2, r3] \<lparr>serverPool = configure [a, b, c], events = []\<rparr>
       = Some (Inr \<lparr>serverPool = (configure [a, b, c])\<lparr>current := 3\<rparr>,
                    events = [Forward b r1, Delivered b, Forward c r2, Delivered c,
                              Forward a r3, Delivered a]\<rparr>)
     \<and> routes (requests (Suc n) fwd [r1, r2, r3] \<lparr>serverPool = configure [a, b, c], events = []\<rparr>)
       = Some [b, c, a]"
proof -
  let ?bs = "[\<lparr>Url = a, Alive = True\<rparr>, \<lparr>Url = b, Alive = True\<rparr>, \<lparr>Url = c, Alive = True\<rparr>]"
  have 1: "lb (Suc n) fwd r1 \<lparr>serverPool = \<lparr>backends = ?bs, current = 0\<rparr>, events = []\<rparr>
        = Some (Inr \<lparr>serverPool = \<lparr>backends = ?bs, current = 1\<rparr>,
                     events = [Forward b r1, Delivered b]\<rparr>)"
    using lb_three [of fwd "[]" a b c 0 n r1] assms(1) by simp
  have 2: "lb (Suc n) fwd r2 \<lparr>serverPool = \<lparr>backends = ?bs, current = 1\<rparr>,
                     events = [Forward b r1, Delivered b]\<rparr>
        = Some (Inr \<lparr>serverPool = \<lparr>backends = ?bs, current = 2\<rparr>,
                     events = [Forward b r1, Delivered b, Forward c r2, Delivered c]\<rparr>)"
    using lb_three [of fwd "[Forward b r1, Delivered b]" a b c 1 n r2] assms(2) by simp
  have 3: "lb (Suc n) fwd r3 \<lparr>serverPool = \<lparr>backends = ?bs, current = 2\<rparr>,
                     events = [Forward b r1, Delivered b, Forward c r2, Delivered c]\<rparr>
        = Some (Inr \<lparr>serverPool = \<lparr>backends = ?bs, current = 3\<rparr>,
                     events = [Forward b r1, Delivered b, Forward c r2, Delivered c,
                               Forward a r3, Delivered a]\<rparr>)"
  proof -
    have "fwd (Suc (Suc 0)) a" using assms(3) by (simp add: numeral_2_eq_2)
    then show ?thesis
      using lb_three [of fwd "[Forward b r1, Delivered b, Forward c r2, Delivered c]" a b c 2 n r3]
      by simp
  qed
  have run: "requests (Suc n) fwd [r1, r2, r3] \<lparr>serverPool = configure [a, b, c], events = []\<rparr>
       = Some (Inr \<lparr>serverPool = (configure [a, b, c])\<lparr>current := 3\<rparr>,
                    events = [Forward b r1, Delivered b, Forward c r2, Delivered c,
                              Forward a r3, Delivered a]\<rparr>)"
    by (simp only: requests.simps configure3 1 2 3 option.case sum.case) simp
  show ?thesis
    by (simp only: run) (simp add: routes_def)
qed


theorem three_requests_routed_witness:
  "routes (requests 1 delivering [fresh, fresh, fresh]
             \<lparr>serverPool = configure [urlA, urlB, urlC], events = []\<rparr>)
     = Some [urlB, urlC, urlA]"
proof -
  have "delivering 0 urlB" "delivering 1 urlC" "delivering 2 urlA"
    by (simp_all add: delivering_def)
  from three_requests_routed [OF this, of 0 fresh fresh fresh]
  show ?thesis unfolding One_nat_def by (rule conjunct2)
qed


section \<open>Serving a request: what changes and that it returns\<close>

lemma GetNextPeer_loop_backends:
  "GetNextPeer_loop s nxt l i = Inr (peer, s') \<Longrightarrow> backends s' = backends s"
proof (induction s nxt l i rule: GetNextPeer_loop.induct)
  case (1 s nxt l i)
  show ?case
  proof (cases "i < l")
    case False
    then show ?thesis using "1.prems" by (simp add: GetNextPeer_loop.simps)
  next
    case True
    then obtain idx where r: "rem i (int (length (backends s))) = Inr idx"
      using "1.prems" by (subst (asm) GetNextPeer_loop.simps) (auto split: sum.splits)
    then obtain b where ix: "index (backends s) idx = Inr b"
      using "1.prems" True by (subst (asm) GetNextPeer_loop.simps) (auto split: sum.splits)
    show ?thesis
    proof (cases "IsAlive b")
      case True
      then show ?thesis using "1.prems" \<open>i < l\<close> r ix
        by (subst (asm) GetNextPeer_loop.simps) (auto split: if_splits)
    next
      case False
      have "GetNextPeer_loop s nxt l (i + 1) = Inr (peer, s')"
        using "1.prems" \<open>i < l\<close> r ix False by (subst (asm) GetNextPeer_loop.simps) simp
      then show ?thesis using "1.IH" [OF \<open>i < l\<close> r ix False] by simp
    qed
  qed
qed

lemma GetNextPeer_backends:
  assumes "GetNextPeer s = Inr (peer, s')"
  shows "backends s' = backends s"
proof -
  obtain nxt s1 where n: "NextIndex s = Inr (nxt, s1)"
    using assms by (auto simp: GetNextPeer_def split: sum.splits)
  then have "backends s1 = backends s"
    by (auto simp: NextIndex_def Let_def split: if_splits)
  moreover have "GetNextPeer_loop s1 nxt (int (length (backends s1)) + nxt) nxt = Inr (peer, s')"
    using assms n by (simp add: GetNextPeer_def)
  ultimately show ?thesis using GetNextPeer_loop_backends by metis
qed

lemma evolves_refl: "evolves w w"
  by (simp add: evolves_def list_all2_same)

lemma evolves_trans:
  assumes "evolves w1 w2" and "evolves w2 w3"
  shows "evolves w1 w3"
proof -
  have a: "list_all2 (\<lambda>b b'. Url b' = Url b \<and> (Alive b' \<longrightarrow> Alive b))
       (backends (serverPool w1)) (backends (serverPool w2))"
    and b: "list_all2 (\<lambda>b b'. Url b' = Url b \<and> (Alive b' \<longrightarrow> Alive b))
       (backends (serverPool w2)) (backends (serverPool w3))"
    using assms by (simp_all add: evolves_def)
  from a b have "list_all2 (\<lambda>b b'. Url b' = Url b \<and> (Alive b' \<longrightarrow> Alive b))
       (backends (serverPool w1)) (backends (serverPool w3))"
    by (rule list_all2_trans [rotated]) auto
  moreover have "prefix (events w1) (events w3)"
    using assms unfolding evolves_def by (meson prefix_order.order_trans)
  ultimately show ?thesis by (simp add: evolves_def)
qed

lemma evolves_step:
  assumes "backends (serverPool w') = backends (serverPool w)" and "events w' = events w @ es"
  shows "evolves w w'"
  using assms by (simp add: evolves_def list_all2_same)

lemma MarkBackendStatus_loop_dead:
  "list_all2 (\<lambda>b b'. Url b' = Url b \<and> (Alive b' \<longrightarrow> Alive b)) bs (MarkBackendStatus_loop bs u False)"
  by (induction bs) (simp_all add: SetAlive_def list_all2_same)

lemma evolves_mark:
  assumes "serverPool w' = MarkBackendStatus (serverPool w) u False" and "events w' = events w @ es"
  shows "evolves w w'"
  using assms by (simp add: evolves_def MarkBackendStatus_def MarkBackendStatus_loop_dead)

lemma lb_cases:
  assumes "lb n fwd r w = Some (Inr w')"
  obtains (unavailable) s where "GetNextPeer (serverPool w) = Inr (None, s)"
      "w' = w\<lparr>serverPool := s, events := events w @ [HttpError ''Service not available'' 503]\<rparr>"
    | (forwarded) b s where "GetNextPeer (serverPool w) = Inr (Some b, s)"
      "ServeHTTP n fwd (Url b) r (w\<lparr>serverPool := s\<rparr>) = Some (Inr w')"
  using assms by (auto simp: lb.simps split: sum.splits option.splits prod.splits)

lemma lb_evolves:
  assumes IH: "\<forall>u r w w'. ServeHTTP n fwd u r w = Some (Inr w') \<longrightarrow> evolves w w'"
    and "lb n fwd r w = Some (Inr w')"
  shows "evolves w w'"
  using assms(2)
proof (cases rule: lb_cases)
  case (unavailable s)
  then show ?thesis using GetNextPeer_backends [OF unavailable(1)]
    by (intro evolves_step [where es = "[HttpError ''Service not available'' 503]"]) simp_all
next
  case (forwarded b s)
  have "evolves w (w\<lparr>serverPool := s\<rparr>)"
    using GetNextPeer_backends [OF forwarded(1)] by (intro evolves_step [where es = "[]"]) simp_all
  then show ?thesis using IH forwarded(2) evolves_trans by blast
qed

lemma ErrorHandler_unfold:
  "ErrorHandler n fwd u r w =
     (case (if GetRetryFromContext r < 3
            then ServeHTTP n fwd u
                   (WithContext r (WithValue (ctx r) Retry (AnyInt (GetRetryFromContext r + 1))))
                   (w\<lparr>events := events w @ [LogProxyError (Host u), After 10]\<rparr>)
            else Some (Inr (w\<lparr>events := events w @ [LogProxyError (Host u)]\<rparr>))) of
        None \<Rightarrow> None
      | Some (Inl p) \<Rightarrow> Some (Inl p)
      | Some (Inr w3) \<Rightarrow>
          lb n fwd (WithContext r (WithValue (ctx r) Attempts (AnyInt (GetAttemptsFromContext r + 1))))
            (w3\<lparr>serverPool := MarkBackendStatus (serverPool w3) u False,
                 events := events w3 @ [LogAttempt (RemoteAddr r) (Path r) (GetAttemptsFromContext r)]\<rparr>))"
  by (auto simp: ErrorHandler.simps Let_def split: option.splits sum.splits)

lemma ErrorHandler_cases:
  assumes "ErrorHandler n fwd u r w = Some (Inr w')"
  obtains (retried) w3 where "GetRetryFromContext r < 3"
      "ServeHTTP n fwd u
         (WithContext r (WithValue (ctx r) Retry (AnyInt (GetRetryFromContext r + 1))))
         (w\<lparr>events := events w @ [LogProxyError (Host u), After 10]\<rparr>) = Some (Inr w3)"
      "lb n fwd (WithContext r (WithValue (ctx r) Attempts (AnyInt (GetAttemptsFromContext r + 1))))
            (w3\<lparr>serverPool := MarkBackendStatus (serverPool w3) u False,
                 events := events w3 @ [LogAttempt (RemoteAddr r) (Path r) (GetAttemptsFromContext r)]\<rparr>)
         = Some (Inr w')"
    | (exhausted) "\<not> GetRetryFromContext r < 3"
      "lb n fwd (WithContext r (WithValue (ctx r) Attempts (AnyInt (GetAttemptsFromContext r + 1))))
            (w\<lparr>serverPool := MarkBackendStatus (serverPool w) u False,
                events := events w @ [LogProxyError (Host u),
                                      LogAttempt (RemoteAddr r) (Path r) (GetAttemptsFromContext r)]\<rparr>)
         = Some (Inr w')"
proof (cases "GetRetryFromContext r < 3")
  case True
  then show ?thesis using assms retried
    by (auto simp: ErrorHandler_unfold split: option.splits sum.splits)
next
  case False
  then show ?thesis using assms exhausted
    by (auto simp: ErrorHandler_unfold)
qed

lemma ErrorHandler_evolves:
  assumes IH: "\<forall>u r w w'. ServeHTTP n fwd u r w = Some (Inr w') \<longrightarrow> evolves w w'"
    and "ErrorHandler n fwd u r w = Some (Inr w')"
  shows "evolves w w'"
  using assms(2)
proof (cases rule: ErrorHandler_cases)
  case (retried w3)
  have "evolves w (w\<lparr>events := events w @ [LogProxyError (Host u), After 10]\<rparr>)"
    by (intro evolves_step [where es = "[LogProxyError (Host u), After 10]"]) simp_all
  moreover have "evolves (w\<lparr>events := events w @ [LogProxyError (Host u), After 10]\<rparr>) w3"
    using IH retried(2) by blast
  moreover have "evolves w3 (w3\<lparr>serverPool := MarkBackendStatus (serverPool w3) u False,
                 events := events w3 @ [LogAttempt (RemoteAddr r) (Path r) (GetAttemptsFromContext r)]\<rparr>)"
    by (intro evolves_mark [where u = u and es = "[LogAttempt (RemoteAddr r) (Path r) (GetAttemptsFromContext r)]"])
      simp_all
  moreover have "evolves (w3\<lparr>serverPool := MarkBackendStatus (serverPool w3) u False,
                 events := events w3 @ [LogAttempt (RemoteAddr r) (Path r) (GetAttemptsFromContext r)]\<rparr>) w'"
    using lb_evolves [OF IH retried(3)] .
  ultimately show ?thesis using evolves_trans by blast
next
  case exhausted
  have "evolves w (w\<lparr>serverPool := MarkBackendStatus (serverPool w) u False,
                events := events w @ [LogProxyError (Host u),
                                      LogAttempt (RemoteAddr r) (Path r) (GetAttemptsFromContext r)]\<rparr>)"
    by (intro evolves_mark [where u = u and es = "[LogProxyError (Host u),
                                      LogAttempt (RemoteAddr r) (Path r) (GetAttemptsFromContext r)]"])
      simp_all
  then show ?thesis using lb_evolves [OF IH exhausted(2)] evolves_trans by blast
qed

lemma ServeHTTP_evolves:
  "ServeHTTP n fwd u r w = Some (Inr w') \<Longrightarrow> evolves w w'"
proof (induction n arbitrary: u r w w')
  case 0
  then show ?case by simp
next
  case (Suc n)
  show ?case
  proof (cases "fwd (length (filter is_Forward (events w))) u")
    case True
    then have "w' = w\<lparr>events := events w @ [Forward u r, Delivered u]\<rparr>"
      using Suc.prems by (simp add: Let_def)
    then show ?thesis
      by (intro evolves_step [where es = "[Forward u r, Delivered u]"]) simp_all
  next
    case False
    then have "ErrorHandler n fwd u r (w\<lparr>events := events w @ [Forward u r]\<rparr>) = Some (Inr w')"
      using Suc.prems by (simp add: Let_def)
    moreover have "\<forall>u r w w'. ServeHTTP n fwd u r w = Some (Inr w') \<longrightarrow> evolves w w'"
      using Suc.IH by blast
    ultimately have "evolves (w\<lparr>events := events w @ [Forward u r]\<rparr>) w'"
      by (rule ErrorHandler_evolves [rotated])
    moreover have "evolves w (w\<lparr>events := events w @ [Forward u r]\<rparr>)"
      by (intro evolves_step [where es = "[Forward u r]"]) simp_all
    ultimately show ?thesis using evolves_trans by blast
  qed
qed

lemma lb_evolves': "lb n fwd r w = Some (Inr w') \<Longrightarrow> evolves w w'"
  using lb_evolves ServeHTTP_evolves by blast

subsection \<open>With enough fuel every call returns\<close>

text \<open>
  Nothing in the flow revives a backend, and every failover follows the marking of the
  backend that failed. With URLs configured once each, the pair of the number of alive
  backends other than the current one and the retries left decreases lexicographically
  along the calls of the forwarder, so the flow ends.
\<close>

lemma evolves_well_formed:
  assumes "evolves w w'" and "well_formed (serverPool w)"
  shows "well_formed (serverPool w')"
proof -
  have l: "list_all2 (\<lambda>b b'. Url b' = Url b \<and> (Alive b' \<longrightarrow> Alive b))
       (backends (serverPool w)) (backends (serverPool w'))"
    using assms(1) by (simp add: evolves_def)
  then have len: "length (backends (serverPool w')) = length (backends (serverPool w))"
    by (simp add: list_all2_lengthD)
  have "map (\<lambda>b. String (Url b)) (backends (serverPool w'))
      = map (\<lambda>b. String (Url b)) (backends (serverPool w))"
    using l len by (intro nth_equalityI) (auto simp: list_all2_conv_all_nth)
  then show ?thesis using assms(2) len by (auto simp: well_formed_def)
qed

lemma evolves_alive_except:
  assumes "evolves w w'"
  shows "alive_except (serverPool w') u \<subseteq> alive_except (serverPool w) u"
proof -
  have l: "list_all2 (\<lambda>b b'. Url b' = Url b \<and> (Alive b' \<longrightarrow> Alive b))
       (backends (serverPool w)) (backends (serverPool w'))"
    using assms(1) by (simp add: evolves_def)
  then show ?thesis
    by (auto simp: alive_except_def alive_at_def list_all2_conv_all_nth)
qed

lemma length_MarkBackendStatus_loop [simp]:
  "length (MarkBackendStatus_loop bs u a) = length bs"
  by (induction bs) simp_all

lemma MarkBackendStatus_loop_alive:
  assumes "distinct (map (\<lambda>b. String (Url b)) bs)" and "i < length bs"
    and "Alive (MarkBackendStatus_loop bs u False ! i)"
  shows "Alive (bs ! i) \<and> String (Url (bs ! i)) \<noteq> String u"
  using assms
proof (induction bs arbitrary: i)
  case Nil
  then show ?case by simp
next
  case (Cons b bs)
  show ?case
  proof (cases "String (Url b) = String u")
    case True
    show ?thesis
    proof (cases i)
      case 0
      then show ?thesis using Cons.prems True by (simp add: SetAlive_def)
    next
      case (Suc j)
      then have "j < length bs" using Cons.prems by simp
      then have "String (Url (bs ! j)) \<noteq> String u"
        using Cons.prems(1) True by (metis (mono_tags, lifting) distinct.simps(2) image_eqI list.map(2) list.set_map nth_mem)
      then show ?thesis using Cons.prems True Suc by simp
    qed
  next
    case False
    show ?thesis
    proof (cases i)
      case 0
      then show ?thesis using Cons.prems False by simp
    next
      case (Suc j)
      then show ?thesis using Cons.prems False Cons.IH [of j] by simp
    qed
  qed
qed

lemma alive_at_MarkBackendStatus:
  assumes "well_formed s"
  shows "alive_at (MarkBackendStatus s u False) \<subseteq> alive_except s u"
  using assms MarkBackendStatus_loop_alive [of "backends s" _ u]
  by (auto simp: alive_at_def alive_except_def MarkBackendStatus_def well_formed_def)

lemma finite_alive_at [simp]: "finite (alive_at s)"
  by (simp add: alive_at_def)

lemma finite_alive_except [simp]: "finite (alive_except s u)"
  by (simp add: alive_except_def)

lemma GetNextPeer_well_formed:
  assumes "well_formed s"
  obtains (none) s' where "GetNextPeer s = Inr (None, s')" "backends s' = backends s"
  | (peer) idx s' where "GetNextPeer s = Inr (Some (backends s ! idx), s')" "backends s' = backends s"
      "idx \<in> alive_at s"
proof -
  have ne: "backends s \<noteq> []" and small: "length (backends s) < 2 ^ 63"
    using assms by (simp_all add: well_formed_def)
  from GetNextPeer_result [OF ne small]
  obtain p s' where r: "GetNextPeer s = Inr (p, s')" "backends s' = backends s"
    and a: "\<forall>b. p = Some b \<longrightarrow>
                 (\<exists>idx < length (backends s). b = backends s ! idx \<and> Alive (backends s ! idx))"
    by blast
  show ?thesis
  proof (cases p)
    case None
    then show ?thesis using r none by simp
  next
    case (Some b)
    then obtain idx where "idx < length (backends s)" "b = backends s ! idx" "Alive (backends s ! idx)"
      using a by blast
    then show ?thesis using r Some peer [of idx s'] by (simp add: alive_at_def)
  qed
qed

lemma card_alive_except_less:
  assumes "idx \<in> alive_at s" and "backends s' = backends s"
  shows "card (alive_except s' (Url (backends s ! idx))) < card (alive_at s)"
proof -
  have "alive_except s' (Url (backends s ! idx)) \<subseteq> alive_at s - {idx}"
    using assms(2) by (auto simp: alive_except_def alive_at_def)
  then have "card (alive_except s' (Url (backends s ! idx))) \<le> card (alive_at s - {idx})"
    by (intro card_mono) simp_all
  also have "\<dots> < card (alive_at s)"
    using assms(1) by (intro card_Diff1_less) simp_all
  finally show ?thesis .
qed

lemma lb_returns:
  assumes wf: "well_formed (serverPool w)"
    and IH: "\<forall>u r w'. well_formed (serverPool w')
                \<and> card (alive_except (serverPool w') u) < card (alive_at (serverPool w))
              \<longrightarrow> (\<exists>N w''. \<forall>n \<ge> N. ServeHTTP n fwd u r w' = Some (Inr w''))"
  shows "\<exists>N w'. \<forall>n \<ge> N. lb n fwd r w = Some (Inr w')"
  using wf
proof (cases rule: GetNextPeer_well_formed)
  case (none s')
  then show ?thesis by (simp add: lb.simps)
next
  case (peer idx s')
  have "well_formed (serverPool (w\<lparr>serverPool := s'\<rparr>))"
    using wf peer(2) by (simp add: well_formed_def)
  moreover have "card (alive_except (serverPool (w\<lparr>serverPool := s'\<rparr>)) (Url (backends (serverPool w) ! idx)))
      < card (alive_at (serverPool w))"
    using card_alive_except_less [OF peer(3) peer(2)] by simp
  ultimately obtain N w'' where
    "\<forall>n \<ge> N. ServeHTTP n fwd (Url (backends (serverPool w) ! idx)) r (w\<lparr>serverPool := s'\<rparr>) = Some (Inr w'')"
    using IH by blast
  then show ?thesis using peer(1) by (auto simp: lb.simps)
qed

lemma GetRetryFromContext_retry [simp]:
  "GetRetryFromContext (WithContext r (WithValue c Retry (AnyInt x))) = x"
  by (simp add: GetRetryFromContext_def WithContext_def WithValue_def Value_def)

text \<open>
  The failover keeps the retry count: the request handed to \<^verbatim>\<open>lb\<close> has the context of
  the request the handler was called with, extended by the attempts counter only.
\<close>

lemma GetRetryFromContext_attempts:
  "GetRetryFromContext (WithContext r (WithValue (ctx r) Attempts v)) = GetRetryFromContext r"
  by (simp add: GetRetryFromContext_def WithContext_def WithValue_def Value_def Attempts_def Retry_def)

lemma lb_empty:
  "backends (serverPool w) = [] \<Longrightarrow> lb n fwd r w = Some (Inl IntegerDivideByZero)"
  by (simp add: lb.simps GetNextPeer_empty)

lemma failover_returns:
  assumes wf: "well_formed (serverPool w3)"
    and le: "card (alive_except (serverPool w3) u) \<le> k"
    and IH: "\<forall>u r w'. well_formed (serverPool w') \<and> card (alive_except (serverPool w') u) < k
              \<longrightarrow> (\<exists>N w''. \<forall>n \<ge> N. ServeHTTP n fwd u r w' = Some (Inr w''))"
  shows "\<exists>N w'. \<forall>n \<ge> N.
           lb n fwd r' (w3\<lparr>serverPool := MarkBackendStatus (serverPool w3) u False,
                           events := events w3 @ es\<rparr>) = Some (Inr w')"
proof -
  let ?w5 = "w3\<lparr>serverPool := MarkBackendStatus (serverPool w3) u False, events := events w3 @ es\<rparr>"
  have "evolves w3 ?w5" by (intro evolves_mark [where u = u and es = es]) simp_all
  then have wf5: "well_formed (serverPool ?w5)" using wf by (rule evolves_well_formed)
  have "card (alive_at (serverPool ?w5)) \<le> card (alive_except (serverPool w3) u)"
    using alive_at_MarkBackendStatus [OF wf, of u] by (intro card_mono) simp_all
  then have "card (alive_at (serverPool ?w5)) \<le> k" using le by simp
  then have "\<forall>u r w'. well_formed (serverPool w')
                \<and> card (alive_except (serverPool w') u) < card (alive_at (serverPool ?w5))
              \<longrightarrow> (\<exists>N w''. \<forall>n \<ge> N. ServeHTTP n fwd u r w' = Some (Inr w''))"
    using IH by (meson less_le_trans)
  with wf5 show ?thesis by (rule lb_returns)
qed

lemma ServeHTTP_returns_aux:
  assumes "well_formed (serverPool w)"
    and "card (alive_except (serverPool w) u) = k"
    and "nat (3 - GetRetryFromContext r) = j"
  shows "\<exists>N w'. \<forall>n \<ge> N. ServeHTTP n fwd u r w = Some (Inr w')"
  using assms
proof (induction k arbitrary: u r w j rule: less_induct)
  case (less k)
  have outer: "\<forall>u r w'. well_formed (serverPool w') \<and> card (alive_except (serverPool w') u) < k
              \<longrightarrow> (\<exists>N w''. \<forall>n \<ge> N. ServeHTTP n fwd u r w' = Some (Inr w''))"
    using less.IH by blast
  from less.prems show ?case
  proof (induction j arbitrary: r w rule: less_induct)
    case (less j)
    note wf = less.prems(1) and k = less.prems(2) and j = less.prems(3)
    show ?case
    proof (cases "fwd (length (filter is_Forward (events w))) u")
      case True
      then have "\<forall>n \<ge> Suc 0. ServeHTTP n fwd u r w
          = Some (Inr (w\<lparr>events := events w @ [Forward u r, Delivered u]\<rparr>))"
        by (auto simp: Let_def le_Suc_eq elim!: Nat.lessE dest!: Suc_le_D)
      then show ?thesis by blast
    next
      case False
      let ?w1 = "w\<lparr>events := events w @ [Forward u r]\<rparr>"
      have step: "ServeHTTP (Suc n) fwd u r w = ErrorHandler n fwd u r ?w1" for n
        using False by (simp add: Let_def)
      have "\<exists>N w'. \<forall>n \<ge> N. ErrorHandler n fwd u r ?w1 = Some (Inr w')"
      proof (cases "GetRetryFromContext r < 3")
        case True
        let ?r' = "WithContext r (WithValue (ctx r) Retry (AnyInt (GetRetryFromContext r + 1)))"
        let ?w2 = "?w1\<lparr>events := events ?w1 @ [LogProxyError (Host u), After 10]\<rparr>"
        have "nat (3 - GetRetryFromContext ?r') < j" using True j by simp
        moreover have "well_formed (serverPool ?w2)" using wf by simp
        moreover have "card (alive_except (serverPool ?w2) u) = k" using k by simp
        ultimately obtain N1 w3 where n1: "\<forall>n \<ge> N1. ServeHTTP n fwd u ?r' ?w2 = Some (Inr w3)"
          using less.IH [of "nat (3 - GetRetryFromContext ?r')" ?w2 ?r'] by blast
        then have "ServeHTTP N1 fwd u ?r' ?w2 = Some (Inr w3)" by simp
        then have ev: "evolves ?w2 w3" by (rule ServeHTTP_evolves)
        then have wf3: "well_formed (serverPool w3)"
          using \<open>well_formed (serverPool ?w2)\<close> by (rule evolves_well_formed)
        have "card (alive_except (serverPool w3) u) \<le> card (alive_except (serverPool ?w2) u)"
          using evolves_alive_except [OF ev, of u] by (intro card_mono) simp_all
        then have "card (alive_except (serverPool w3) u) \<le> k" using k by simp
        from failover_returns [OF wf3 this outer]
        obtain N2 w' where n2: "\<forall>n \<ge> N2.
           lb n fwd (WithContext r (WithValue (ctx r) Attempts (AnyInt (GetAttemptsFromContext r + 1))))
             (w3\<lparr>serverPool := MarkBackendStatus (serverPool w3) u False,
                  events := events w3 @ [LogAttempt (RemoteAddr r) (Path r) (GetAttemptsFromContext r)]\<rparr>)
             = Some (Inr w')"
          by blast
        have "\<forall>n \<ge> max N1 N2. ErrorHandler n fwd u r ?w1 = Some (Inr w')"
          using n1 n2 True by (simp add: ErrorHandler_unfold)
        then show ?thesis by blast
      next
        case False
        have "card (alive_except (serverPool ?w1) u) \<le> k" using k by simp
        moreover have "well_formed (serverPool ?w1)" using wf by simp
        ultimately obtain N2 w' where n2: "\<forall>n \<ge> N2.
           lb n fwd (WithContext r (WithValue (ctx r) Attempts (AnyInt (GetAttemptsFromContext r + 1))))
             (?w1\<lparr>serverPool := MarkBackendStatus (serverPool ?w1) u False,
                  events := events ?w1 @ [LogProxyError (Host u),
                     LogAttempt (RemoteAddr r) (Path r) (GetAttemptsFromContext r)]\<rparr>)
             = Some (Inr w')"
          using failover_returns [OF _ _ outer, of ?w1 u] by blast
        have "\<forall>n \<ge> N2. ErrorHandler n fwd u r ?w1 = Some (Inr w')"
          using n2 False by (simp add: ErrorHandler_unfold)
        then show ?thesis by blast
      qed
      then obtain N w' where "\<forall>n \<ge> N. ErrorHandler n fwd u r ?w1 = Some (Inr w')" by blast
      then have "\<forall>n \<ge> Suc N. ServeHTTP n fwd u r w = Some (Inr w')"
        using step by (metis Suc_le_D Suc_le_mono)
      then show ?thesis by blast
    qed
  qed
qed

lemma ServeHTTP_returns:
  assumes "well_formed (serverPool w)"
  shows "\<exists>N w'. \<forall>n \<ge> N. ServeHTTP n fwd u r w = Some (Inr w')"
  using ServeHTTP_returns_aux [OF assms refl refl] .

lemma lb_returns':
  assumes "well_formed (serverPool w)"
  shows "\<exists>N w'. \<forall>n \<ge> N. lb n fwd r w = Some (Inr w')"
  using assms by (rule lb_returns) (simp add: ServeHTTP_returns)

subsection \<open>The error handler\<close>

lemma ServeHTTP_first_event:
  assumes "ServeHTTP n fwd u r w = Some (Inr w')"
  shows "\<exists>es. events w' = events w @ Forward u r # es"
proof (cases n)
  case 0
  then show ?thesis using assms by simp
next
  case (Suc m)
  show ?thesis
  proof (cases "fwd (length (filter is_Forward (events w))) u")
    case True
    then have "w' = w\<lparr>events := events w @ [Forward u r, Delivered u]\<rparr>"
      using assms Suc by (simp add: Let_def)
    then show ?thesis by simp
  next
    case False
    then have "ErrorHandler m fwd u r (w\<lparr>events := events w @ [Forward u r]\<rparr>) = Some (Inr w')"
      using assms Suc by (simp add: Let_def)
    moreover have "\<forall>u r w w'. ServeHTTP m fwd u r w = Some (Inr w') \<longrightarrow> evolves w w'"
      using ServeHTTP_evolves by blast
    ultimately have "evolves (w\<lparr>events := events w @ [Forward u r]\<rparr>) w'"
      by (rule ErrorHandler_evolves [rotated])
    then have "prefix (events w @ [Forward u r]) (events w')" by (simp add: evolves_def)
    then obtain es where "events w' = (events w @ [Forward u r]) @ es" by (auto simp: prefix_def)
    then show ?thesis by simp
  qed
qed

lemma lb_outcome:
  assumes "well_formed (serverPool w)" and "lb n fwd r w = Some (Inr w')"
  shows "events w' = events w @ [HttpError ''Service not available'' 503]
       \<or> (\<exists>i es. i \<in> alive_at (serverPool w)
              \<and> events w' = events w @ Forward (Url (backends (serverPool w) ! i)) r # es)"
  using assms(2)
proof (cases rule: lb_cases)
  case (unavailable s)
  then show ?thesis by simp
next
  case (forwarded b s)
  from assms(1) obtain i where "i \<in> alive_at (serverPool w)" "b = backends (serverPool w) ! i"
    using forwarded(1) by (cases rule: GetNextPeer_well_formed) auto
  moreover obtain es where "events w' = events (w\<lparr>serverPool := s\<rparr>) @ Forward (Url b) r # es"
    using ServeHTTP_first_event [OF forwarded(2)] by blast
  ultimately show ?thesis by auto
qed

lemma evolves_dead:
  assumes "evolves w w'"
    and "\<forall>b \<in> set (backends (serverPool w)). String (Url b) = String u \<longrightarrow> \<not> Alive b"
  shows "\<forall>b \<in> set (backends (serverPool w')). String (Url b) = String u \<longrightarrow> \<not> Alive b"
proof -
  have l: "list_all2 (\<lambda>b b'. Url b' = Url b \<and> (Alive b' \<longrightarrow> Alive b))
       (backends (serverPool w)) (backends (serverPool w'))"
    using assms(1) by (simp add: evolves_def)
  show ?thesis
  proof (intro ballI impI)
    fix b' assume "b' \<in> set (backends (serverPool w'))" and s: "String (Url b') = String u"
    then obtain i where i: "i < length (backends (serverPool w'))" "b' = backends (serverPool w') ! i"
      by (auto simp: in_set_conv_nth)
    let ?b = "backends (serverPool w) ! i"
    have "i < length (backends (serverPool w))" using l i(1) by (simp add: list_all2_lengthD)
    then have "?b \<in> set (backends (serverPool w))" by simp
    moreover have "Url b' = Url ?b" and "Alive b' \<longrightarrow> Alive ?b"
      using l i by (simp_all add: list_all2_conv_all_nth)
    ultimately show "\<not> Alive b'" using assms(2) s by auto
  qed
qed

lemma MarkBackendStatus_dead:
  assumes "well_formed s"
  shows "\<forall>b \<in> set (backends (MarkBackendStatus s u False)). String (Url b) = String u \<longrightarrow> \<not> Alive b"
proof (intro ballI impI)
  fix b assume "b \<in> set (backends (MarkBackendStatus s u False))" and s: "String (Url b) = String u"
  then obtain i where i: "i < length (backends s)" "b = MarkBackendStatus_loop (backends s) u False ! i"
    by (auto simp: in_set_conv_nth MarkBackendStatus_def)
  have "Url b = Url (backends s ! i)"
    using MarkBackendStatus_loop_dead [of "backends s" u] i by (simp add: list_all2_conv_all_nth)
  then have "String (Url (backends s ! i)) = String u" using s by simp
  then show "\<not> Alive b"
    using MarkBackendStatus_loop_alive [of "backends s" i u] assms i by (auto simp: well_formed_def)
qed

lemma failover_outcome:
  assumes wf: "well_formed (serverPool w3)"
  shows "\<exists>N w'. (\<forall>m \<ge> N. lb m fwd a (w3\<lparr>serverPool := MarkBackendStatus (serverPool w3) u False,
                                          events := events w3 @ es\<rparr>) = Some (Inr w'))
           \<and> (\<forall>b \<in> set (backends (serverPool w')). String (Url b) = String u \<longrightarrow> \<not> Alive b)
           \<and> (\<exists>es2. events w' = events w3 @ es @ es2
                 \<and> (es2 = [HttpError ''Service not available'' 503]
                    \<or> (\<exists>q es3. es2 = Forward q a # es3 \<and> String q \<noteq> String u)))"
proof -
  let ?w5 = "w3\<lparr>serverPool := MarkBackendStatus (serverPool w3) u False, events := events w3 @ es\<rparr>"
  have "evolves w3 ?w5" by (intro evolves_mark [where u = u and es = es]) simp_all
  then have wf5: "well_formed (serverPool ?w5)" using wf by (rule evolves_well_formed)
  have dead5: "\<forall>b \<in> set (backends (serverPool ?w5)). String (Url b) = String u \<longrightarrow> \<not> Alive b"
    using MarkBackendStatus_dead [OF wf, of u] by simp
  from lb_returns' [OF wf5, of fwd a]
  obtain N w' where ret: "\<forall>m \<ge> N. lb m fwd a ?w5 = Some (Inr w')" by blast
  then have at: "lb N fwd a ?w5 = Some (Inr w')" by simp
  then have "evolves ?w5 w'" by (rule lb_evolves')
  then have dead: "\<forall>b \<in> set (backends (serverPool w')). String (Url b) = String u \<longrightarrow> \<not> Alive b"
    using dead5 by (rule evolves_dead)
  from lb_outcome [OF wf5 at]
  have "\<exists>es2. events w' = events w3 @ es @ es2
                 \<and> (es2 = [HttpError ''Service not available'' 503]
                    \<or> (\<exists>q es3. es2 = Forward q a # es3 \<and> String q \<noteq> String u))"
  proof
    assume "events w' = events ?w5 @ [HttpError ''Service not available'' 503]"
    then show ?thesis by simp
  next
    assume "\<exists>i es'. i \<in> alive_at (serverPool ?w5)
              \<and> events w' = events ?w5 @ Forward (Url (backends (serverPool ?w5) ! i)) a # es'"
    then obtain i es' where i: "i \<in> alive_at (serverPool ?w5)"
      and e: "events w' = events ?w5 @ Forward (Url (backends (serverPool ?w5) ! i)) a # es'"
      by blast
    have "backends (serverPool ?w5) ! i \<in> set (backends (serverPool ?w5))"
      and "Alive (backends (serverPool ?w5) ! i)"
      using i by (simp_all add: alive_at_def)
    then have "String (Url (backends (serverPool ?w5) ! i)) \<noteq> String u"
      using dead5 by blast
    then show ?thesis using e by auto
  qed
  then show ?thesis using ret dead by blast
qed

lemma pool3_well_formed: "well_formed (pool3 a b c)"
proof -
  have "distinct (map (\<lambda>b. String (Url b)) (backends (pool3 a b c)))"
    by (simp add: pool3_def urlA_def urlB_def urlC_def)
  then show ?thesis using pool3_small pool3_nonempty by (simp add: well_formed_def)
qed

lemma ErrorHandler_example:
  "ErrorHandler 3 failing urlA fresh \<lparr>serverPool = pool3 True False False, events = []\<rparr> =
     Some (Inr \<lparr>serverPool = (pool3 False False False)\<lparr>current := 4\<rparr>,
                events =
                  [LogProxyError ''a:8081'', After 10,
                   Forward urlA (WithContext fresh [(Retry, AnyInt 1)]),
                   LogProxyError ''a:8081'', After 10,
                   Forward urlA (WithContext fresh [(Retry, AnyInt 2), (Retry, AnyInt 1)]),
                   LogProxyError ''a:8081'', After 10,
                   Forward urlA (WithContext fresh [(Retry, AnyInt 3), (Retry, AnyInt 2), (Retry, AnyInt 1)]),
                   LogProxyError ''a:8081'', LogAttempt ''10.0.0.1:5000'' ''/'' 0,
                   HttpError ''Service not available'' 503,
                   LogAttempt ''10.0.0.1:5000'' ''/'' 0,
                   HttpError ''Service not available'' 503,
                   LogAttempt ''10.0.0.1:5000'' ''/'' 0,
                   HttpError ''Service not available'' 503,
                   LogAttempt ''10.0.0.1:5000'' ''/'' 0,
                   HttpError ''Service not available'' 503]\<rparr>)"
  by code_simp

text \<open>
  C1. When a delivery fails, the error handler reads the retry count from the context of
  the request. If it is below 3, the handler waits 10 ms and invokes the forwarder again
  for the same backend, with the count incremented. Then, whether or not it retried, it
  marks the backend dead with \<^verbatim>\<open>MarkBackendStatus\<close>, logs and increments the attempts
  counter (read from the request the handler was called with) and calls \<^verbatim>\<open>lb\<close> again.
  So for a failure with fewer than 3 retries the retry and the failover both happen in
  one invocation. The first conjunct is this control flow; the second says, for a pool
  with at least one backend and no URL twice, that the invocation returns, that it
  leaves the backend dead, and what it adds to the events: the wait and the retry on the
  same backend when the count was below 3, then the attempts log, then what \<^verbatim>\<open>lb\<close>
  did, which is either the 503 response or the forwarding to another backend of the
  request with the incremented attempts counter.
\<close>

theorem ErrorHandler_retry_and_failover:
  "ErrorHandler n fwd serverUrl r w =
     (case (if GetRetryFromContext r < 3
            then ServeHTTP n fwd serverUrl
                   (WithContext r (WithValue (ctx r) Retry (AnyInt (GetRetryFromContext r + 1))))
                   (w\<lparr>events := events w @ [LogProxyError (Host serverUrl), After 10]\<rparr>)
            else Some (Inr (w\<lparr>events := events w @ [LogProxyError (Host serverUrl)]\<rparr>))) of
        None \<Rightarrow> None
      | Some (Inl p) \<Rightarrow> Some (Inl p)
      | Some (Inr w3) \<Rightarrow>
          lb n fwd (WithContext r (WithValue (ctx r) Attempts (AnyInt (GetAttemptsFromContext r + 1))))
            (w3\<lparr>serverPool := MarkBackendStatus (serverPool w3) serverUrl False,
                 events := events w3 @ [LogAttempt (RemoteAddr r) (Path r) (GetAttemptsFromContext r)]\<rparr>))
   \<and> (well_formed (serverPool w) \<longrightarrow>
        (\<exists>N w'. (\<forall>m \<ge> N. ErrorHandler m fwd serverUrl r w = Some (Inr w'))
           \<and> (\<forall>b \<in> set (backends (serverPool w')). String (Url b) = String serverUrl \<longrightarrow> \<not> Alive b)
           \<and> (\<exists>es1 es2.
                 events w' = events w @ [LogProxyError (Host serverUrl)]
                   @ (if GetRetryFromContext r < 3
                      then [After 10,
                            Forward serverUrl
                              (WithContext r (WithValue (ctx r) Retry (AnyInt (GetRetryFromContext r + 1))))]
                           @ es1
                      else [])
                   @ [LogAttempt (RemoteAddr r) (Path r) (GetAttemptsFromContext r)] @ es2
                 \<and> (es2 = [HttpError ''Service not available'' 503]
                    \<or> (\<exists>q es3. es2 = Forward q (WithContext r (WithValue (ctx r) Attempts
                                                   (AnyInt (GetAttemptsFromContext r + 1)))) # es3
                          \<and> String q \<noteq> String serverUrl)))))"
proof (intro conjI impI)
  show "ErrorHandler n fwd serverUrl r w =
     (case (if GetRetryFromContext r < 3
            then ServeHTTP n fwd serverUrl
                   (WithContext r (WithValue (ctx r) Retry (AnyInt (GetRetryFromContext r + 1))))
                   (w\<lparr>events := events w @ [LogProxyError (Host serverUrl), After 10]\<rparr>)
            else Some (Inr (w\<lparr>events := events w @ [LogProxyError (Host serverUrl)]\<rparr>))) of
        None \<Rightarrow> None
      | Some (Inl p) \<Rightarrow> Some (Inl p)
      | Some (Inr w3) \<Rightarrow>
          lb n fwd (WithContext r (WithValue (ctx r) Attempts (AnyInt (GetAttemptsFromContext r + 1))))
            (w3\<lparr>serverPool := MarkBackendStatus (serverPool w3) serverUrl False,
                 events := events w3 @ [LogAttempt (RemoteAddr r) (Path r) (GetAttemptsFromContext r)]\<rparr>))"
    by (rule ErrorHandler_unfold)
next
  assume wf: "well_formed (serverPool w)"
  let ?R = "WithContext r (WithValue (ctx r) Retry (AnyInt (GetRetryFromContext r + 1)))"
  let ?A = "WithContext r (WithValue (ctx r) Attempts (AnyInt (GetAttemptsFromContext r + 1)))"
  let ?log = "LogAttempt (RemoteAddr r) (Path r) (GetAttemptsFromContext r)"
  show "\<exists>N w'. (\<forall>m \<ge> N. ErrorHandler m fwd serverUrl r w = Some (Inr w'))
           \<and> (\<forall>b \<in> set (backends (serverPool w')). String (Url b) = String serverUrl \<longrightarrow> \<not> Alive b)
           \<and> (\<exists>es1 es2.
                 events w' = events w @ [LogProxyError (Host serverUrl)]
                   @ (if GetRetryFromContext r < 3 then [After 10, Forward serverUrl ?R] @ es1 else [])
                   @ [?log] @ es2
                 \<and> (es2 = [HttpError ''Service not available'' 503]
                    \<or> (\<exists>q es3. es2 = Forward q ?A # es3 \<and> String q \<noteq> String serverUrl)))"
  proof (cases "GetRetryFromContext r < 3")
    case True
    let ?w2 = "w\<lparr>events := events w @ [LogProxyError (Host serverUrl), After 10]\<rparr>"
    have wf2: "well_formed (serverPool ?w2)" using wf by simp
    from ServeHTTP_returns [OF wf2, of fwd serverUrl ?R]
    obtain N1 w3 where n1: "\<forall>m \<ge> N1. ServeHTTP m fwd serverUrl ?R ?w2 = Some (Inr w3)" by blast
    then have at: "ServeHTTP N1 fwd serverUrl ?R ?w2 = Some (Inr w3)" by simp
    then have "evolves ?w2 w3" by (rule ServeHTTP_evolves)
    then have wf3: "well_formed (serverPool w3)" using wf2 by (rule evolves_well_formed)
    obtain es1 where e3: "events w3 = events ?w2 @ Forward serverUrl ?R # es1"
      using ServeHTTP_first_event [OF at] by blast
    from failover_outcome [OF wf3, where fwd = fwd and a = ?A and u = serverUrl and es = "[?log]"]
    obtain N2 w' es2 where n2: "\<forall>m \<ge> N2. lb m fwd ?A
          (w3\<lparr>serverPool := MarkBackendStatus (serverPool w3) serverUrl False,
               events := events w3 @ [?log]\<rparr>) = Some (Inr w')"
      and dead: "\<forall>b \<in> set (backends (serverPool w')). String (Url b) = String serverUrl \<longrightarrow> \<not> Alive b"
      and e: "events w' = events w3 @ [?log] @ es2"
      and o: "es2 = [HttpError ''Service not available'' 503]
                    \<or> (\<exists>q es3. es2 = Forward q ?A # es3 \<and> String q \<noteq> String serverUrl)"
      by blast
    have "\<forall>m \<ge> max N1 N2. ErrorHandler m fwd serverUrl r w = Some (Inr w')"
      using n1 n2 True by (simp add: ErrorHandler_unfold)
    moreover have "events w' = events w @ [LogProxyError (Host serverUrl)]
                   @ (if GetRetryFromContext r < 3 then [After 10, Forward serverUrl ?R] @ es1 else [])
                   @ [?log] @ es2"
      using e e3 True by simp
    ultimately show ?thesis using dead o by blast
  next
    case False
    let ?w1 = "w\<lparr>events := events w @ [LogProxyError (Host serverUrl)]\<rparr>"
    have wf1: "well_formed (serverPool ?w1)" using wf by simp
    from failover_outcome [OF wf1, where fwd = fwd and a = ?A and u = serverUrl and es = "[?log]"]
    obtain N2 w' es2 where n2: "\<forall>m \<ge> N2. lb m fwd ?A
          (?w1\<lparr>serverPool := MarkBackendStatus (serverPool ?w1) serverUrl False,
               events := events ?w1 @ [?log]\<rparr>) = Some (Inr w')"
      and dead: "\<forall>b \<in> set (backends (serverPool w')). String (Url b) = String serverUrl \<longrightarrow> \<not> Alive b"
      and e: "events w' = events ?w1 @ [?log] @ es2"
      and o: "es2 = [HttpError ''Service not available'' 503]
                    \<or> (\<exists>q es3. es2 = Forward q ?A # es3 \<and> String q \<noteq> String serverUrl)"
      by blast
    have "\<forall>m \<ge> N2. ErrorHandler m fwd serverUrl r w = Some (Inr w')"
      using n2 False by (simp add: ErrorHandler_unfold)
    moreover have "events w' = events w @ [LogProxyError (Host serverUrl)]
                   @ (if GetRetryFromContext r < 3 then [After 10, Forward serverUrl ?R] @ es1 else [])
                   @ [?log] @ es2" for es1
      using e False by simp
    ultimately show ?thesis using dead o by blast
  qed
qed

theorem ErrorHandler_retry_and_failover_witness:
  "well_formed (serverPool \<lparr>serverPool = pool3 True True True, events = []\<rparr>)
   \<and> GetRetryFromContext fresh < 3
   \<and> (\<exists>N w'. (\<forall>m \<ge> N. ErrorHandler m failing urlB fresh
                              \<lparr>serverPool = pool3 True True True, events = []\<rparr> = Some (Inr w'))
         \<and> (\<forall>b \<in> set (backends (serverPool w')). String (Url b) = String urlB \<longrightarrow> \<not> Alive b)
         \<and> (\<exists>es1 es2. events w' =
               [LogProxyError (Host urlB), After 10,
                Forward urlB (WithContext fresh (WithValue (ctx fresh) Retry (AnyInt 1)))] @ es1
               @ [LogAttempt (RemoteAddr fresh) (Path fresh) 0] @ es2))"
proof -
  let ?w = "\<lparr>serverPool = pool3 True True True, events = []\<rparr>"
  have wf: "well_formed (serverPool ?w)" using pool3_well_formed by simp
  have r: "GetRetryFromContext fresh = 0" "GetAttemptsFromContext fresh = 0"
    by (simp_all add: GetRetryFromContext_def GetAttemptsFromContext_def fresh_def Value_def)
  from ErrorHandler_retry_and_failover [of 0 failing urlB fresh ?w, THEN conjunct2, rule_format, OF wf]
  obtain N w' es1 es2 where
    "\<forall>m \<ge> N. ErrorHandler m failing urlB fresh ?w = Some (Inr w')"
    "\<forall>b \<in> set (backends (serverPool w')). String (Url b) = String urlB \<longrightarrow> \<not> Alive b"
    "events w' = events ?w @ [LogProxyError (Host urlB)]
        @ (if GetRetryFromContext fresh < 3
           then [After 10, Forward urlB (WithContext fresh (WithValue (ctx fresh) Retry
                   (AnyInt (GetRetryFromContext fresh + 1))))] @ es1
           else [])
        @ [LogAttempt (RemoteAddr fresh) (Path fresh) (GetAttemptsFromContext fresh)] @ es2"
    by blast
  then have "(\<forall>m \<ge> N. ErrorHandler m failing urlB fresh ?w = Some (Inr w'))
         \<and> (\<forall>b \<in> set (backends (serverPool w')). String (Url b) = String urlB \<longrightarrow> \<not> Alive b)
         \<and> events w' =
               [LogProxyError (Host urlB), After 10,
                Forward urlB (WithContext fresh (WithValue (ctx fresh) Retry (AnyInt 1)))] @ es1
               @ [LogAttempt (RemoteAddr fresh) (Path fresh) 0] @ es2"
    by (simp add: r)
  moreover have "GetRetryFromContext fresh < 3" by (simp add: r)
  ultimately show ?thesis using wf by blast
qed

section \<open>Marking a backend\<close>

lemma MarkBackendStatus_loop_no_match:
  assumes "\<forall>b \<in> set bs. String (Url b) \<noteq> String u"
  shows "MarkBackendStatus_loop bs u a = bs"
  using assms by (induction bs) simp_all

lemma MarkBackendStatus_loop_first:
  assumes "i < length bs" and "String (Url (bs ! i)) = String u"
    and "\<forall>j < i. String (Url (bs ! j)) \<noteq> String u"
  shows "MarkBackendStatus_loop bs u a = bs[i := (bs ! i)\<lparr>Alive := a\<rparr>]"
  using assms
proof (induction bs arbitrary: i)
  case Nil
  then show ?case by simp
next
  case (Cons b bs)
  show ?case
  proof (cases i)
    case 0
    then show ?thesis using Cons.prems by (simp add: SetAlive_def)
  next
    case (Suc k)
    have nb: "String (Url b) \<noteq> String u" using Cons.prems(3) Suc by auto
    have "MarkBackendStatus_loop bs u a = bs[k := (bs ! k)\<lparr>Alive := a\<rparr>]"
      using Cons.prems Suc by (intro Cons.IH) auto
    then show ?thesis using nb Suc by simp
  qed
qed

text \<open>
  C8. \<^verbatim>\<open>MarkBackendStatus\<close> compares the URL strings of the backends, in order, with
  that of the given URL. It sets the alive flag of the first backend that matches to the
  given value and changes nothing else: the other backends, the URL of the matching one
  and the cursor stay as they were. If no backend matches, the pool is unchanged.
\<close>

theorem MarkBackendStatus_first_match:
  "(\<forall>i. i < length (backends s) \<and> String (Url (backends s ! i)) = String backendUrl
        \<and> (\<forall>j < i. String (Url (backends s ! j)) \<noteq> String backendUrl) \<longrightarrow>
        MarkBackendStatus s backendUrl alive
          = s\<lparr>backends := (backends s)[i := (backends s ! i)\<lparr>Alive := alive\<rparr>]\<rparr>
        \<and> Alive (backends (MarkBackendStatus s backendUrl alive) ! i) = alive
        \<and> Url (backends (MarkBackendStatus s backendUrl alive) ! i) = Url (backends s ! i)
        \<and> (\<forall>j. j \<noteq> i \<longrightarrow>
              backends (MarkBackendStatus s backendUrl alive) ! j = backends s ! j))
   \<and> ((\<forall>b \<in> set (backends s). String (Url b) \<noteq> String backendUrl) \<longrightarrow>
        MarkBackendStatus s backendUrl alive = s)"
proof (intro conjI allI impI)
  fix i
  assume h: "i < length (backends s) \<and> String (Url (backends s ! i)) = String backendUrl
        \<and> (\<forall>j < i. String (Url (backends s ! j)) \<noteq> String backendUrl)"
  then show eq: "MarkBackendStatus s backendUrl alive
          = s\<lparr>backends := (backends s)[i := (backends s ! i)\<lparr>Alive := alive\<rparr>]\<rparr>"
    by (simp add: MarkBackendStatus_def MarkBackendStatus_loop_first)
  show "Alive (backends (MarkBackendStatus s backendUrl alive) ! i) = alive"
    using h by (simp add: eq)
  show "Url (backends (MarkBackendStatus s backendUrl alive) ! i) = Url (backends s ! i)"
    using h by (simp add: eq)
  fix j
  assume "j \<noteq> i"
  then show "backends (MarkBackendStatus s backendUrl alive) ! j = backends s ! j"
    by (simp add: eq)
next
  assume "\<forall>b \<in> set (backends s). String (Url b) \<noteq> String backendUrl"
  then show "MarkBackendStatus s backendUrl alive = s"
    by (simp add: MarkBackendStatus_def MarkBackendStatus_loop_no_match)
qed

theorem MarkBackendStatus_first_match_witness:
  "MarkBackendStatus (pool3 True True True) urlB False = pool3 True False True
   \<and> MarkBackendStatus (pool3 True True True) \<lparr>String = ''http://d:1'', Host = ''d:1''\<rparr> False
       = pool3 True True True"
proof -
  have 1: "MarkBackendStatus (pool3 True True True) urlB False = pool3 True False True"
    using MarkBackendStatus_first_match [of "pool3 True True True" urlB False,
        THEN conjunct1, THEN spec, of 1]
    by (simp add: pool3_def urlA_def urlB_def urlC_def)
  have 2: "MarkBackendStatus (pool3 True True True) \<lparr>String = ''http://d:1'', Host = ''d:1''\<rparr> False
       = pool3 True True True"
    using MarkBackendStatus_first_match [of "pool3 True True True"
        "\<lparr>String = ''http://d:1'', Host = ''d:1''\<rparr>" False, THEN conjunct2]
    by (simp add: pool3_def urlA_def urlB_def urlC_def)
  show ?thesis using 1 2 by simp
qed

section \<open>The health check\<close>

lemma isBackendAlive_result:
  "fst (isBackendAlive dial u es) = (dial (length (filter is_DialTimeout es)) (Host u) = None)"
  "filter is_DialTimeout (snd (isBackendAlive dial u es))
     = filter is_DialTimeout es @ [DialTimeout ''tcp'' (Host u) 2000]"
  by (simp_all add: isBackendAlive_def Let_def split: option.splits)

lemma HeadthCheck_loop_result:
  "length (fst (HeadthCheck_loop dial bs es)) = length bs
   \<and> (\<forall>i < length bs. fst (HeadthCheck_loop dial bs es) ! i =
          (bs ! i)\<lparr>Alive := (dial (length (filter is_DialTimeout es) + i) (Host (Url (bs ! i))) = None)\<rparr>)
   \<and> filter is_DialTimeout (snd (HeadthCheck_loop dial bs es))
        = filter is_DialTimeout es @ map (\<lambda>b. DialTimeout ''tcp'' (Host (Url b)) 2000) bs"
proof (induction bs arbitrary: es)
  case Nil
  then show ?case by simp
next
  case (Cons b bs)
  obtain alive es1 where p: "isBackendAlive dial (Url b) es = (alive, es1)"
    by (cases "isBackendAlive dial (Url b) es")
  have a: "alive = (dial (length (filter is_DialTimeout es)) (Host (Url b)) = None)"
    using isBackendAlive_result(1) [of dial "Url b" es] p by simp
  have f: "filter is_DialTimeout es1 = filter is_DialTimeout es @ [DialTimeout ''tcp'' (Host (Url b)) 2000]"
    using isBackendAlive_result(2) [of dial "Url b" es] p by simp
  let ?es2 = "es1 @ [LogStatus (String (Url b)) (if \<not> alive then ''down'' else ''up'')]"
  have f2: "filter is_DialTimeout ?es2 = filter is_DialTimeout es @ [DialTimeout ''tcp'' (Host (Url b)) 2000]"
    using f by simp
  obtain bs' es3 where r: "HeadthCheck_loop dial bs ?es2 = (bs', es3)"
    by (cases "HeadthCheck_loop dial bs ?es2")
  have unfold: "HeadthCheck_loop dial (b # bs) es = (SetAlive b alive # bs', es3)"
    using p r by (simp add: Let_def)
  from Cons.IH [of ?es2] r
  have ih: "length bs' = length bs"
    "\<forall>i < length bs. bs' ! i =
       (bs ! i)\<lparr>Alive := (dial (length (filter is_DialTimeout ?es2) + i) (Host (Url (bs ! i))) = None)\<rparr>"
    "filter is_DialTimeout es3
        = filter is_DialTimeout ?es2 @ map (\<lambda>b. DialTimeout ''tcp'' (Host (Url b)) 2000) bs"
    by simp_all
  have len2: "length (filter is_DialTimeout ?es2) = Suc (length (filter is_DialTimeout es))"
    by (simp only: f2) simp
  have len1: "length (filter is_DialTimeout es1) = Suc (length (filter is_DialTimeout es))"
    by (simp only: f) simp
  have nth: "\<forall>i < length (b # bs). (SetAlive b alive # bs') ! i =
          ((b # bs) ! i)\<lparr>Alive := (dial (length (filter is_DialTimeout es) + i) (Host (Url ((b # bs) ! i))) = None)\<rparr>"
  proof (intro allI impI)
    fix i assume "i < length (b # bs)"
    then show "(SetAlive b alive # bs') ! i =
          ((b # bs) ! i)\<lparr>Alive := (dial (length (filter is_DialTimeout es) + i) (Host (Url ((b # bs) ! i))) = None)\<rparr>"
      using ih(2) a by (cases i) (simp_all add: SetAlive_def len1)
  qed
  have "filter is_DialTimeout es3
        = filter is_DialTimeout es @ map (\<lambda>b. DialTimeout ''tcp'' (Host (Url b)) 2000) (b # bs)"
    by (simp only: ih(3) f2) simp
  then show ?case using ih(1) nth by (simp only: unfold fst_conv snd_conv) simp
qed

text \<open>
  C9. One pass of \<^verbatim>\<open>HeadthCheck\<close> dials every backend of the pool exactly once, in
  insertion order, and returns when all are done. The alive flag of the backend at
  position \<open>i\<close> becomes true exactly when the dial made for it, the \<open>i\<close>-th of the pass,
  returns no error, and false when it returns one; the URLs, the number of backends and
  the cursor do not change.
\<close>

theorem HeadthCheck_pass:
  "length (backends (serverPool (HeadthCheck dial w))) = length (backends (serverPool w))
   \<and> current (serverPool (HeadthCheck dial w)) = current (serverPool w)
   \<and> (\<forall>i < length (backends (serverPool w)).
        Url (backends (serverPool (HeadthCheck dial w)) ! i) = Url (backends (serverPool w) ! i)
        \<and> Alive (backends (serverPool (HeadthCheck dial w)) ! i)
            = (dial (length (filter is_DialTimeout (events w)) + i)
                 (Host (Url (backends (serverPool w) ! i))) = None))
   \<and> filter is_DialTimeout (events (HeadthCheck dial w))
        = filter is_DialTimeout (events w)
          @ map (\<lambda>b. DialTimeout ''tcp'' (Host (Url b)) 2000) (backends (serverPool w))"
proof -
  obtain bs es where r: "HeadthCheck_loop dial (backends (serverPool w)) (events w) = (bs, es)"
    by (cases "HeadthCheck_loop dial (backends (serverPool w)) (events w)")
  have h: "HeadthCheck dial w = w\<lparr>serverPool := (serverPool w)\<lparr>backends := bs\<rparr>, events := es\<rparr>"
    by (simp add: HeadthCheck_def r)
  from HeadthCheck_loop_result [of dial "backends (serverPool w)" "events w"] r
  have l: "length bs = length (backends (serverPool w))"
    and n: "\<forall>i < length (backends (serverPool w)). bs ! i =
          (backends (serverPool w) ! i)\<lparr>Alive := (dial (length (filter is_DialTimeout (events w)) + i)
             (Host (Url (backends (serverPool w) ! i))) = None)\<rparr>"
    and f: "filter is_DialTimeout es
        = filter is_DialTimeout (events w)
          @ map (\<lambda>b. DialTimeout ''tcp'' (Host (Url b)) 2000) (backends (serverPool w))"
    by simp_all
  show ?thesis using l n f by (simp add: h)
qed

theorem HeadthCheck_pass_witness:
  "HeadthCheck (\<lambda>k address. if address = ''b:8082'' then Some Timeout else None)
     \<lparr>serverPool = pool3 False True True, events = []\<rparr>
   = \<lparr>serverPool = pool3 True False True,
      events = [DialTimeout ''tcp'' ''a:8081'' 2000, ConnClose ''a:8081'',
                LogStatus ''http://a:8081'' ''up'',
                DialTimeout ''tcp'' ''b:8082'' 2000, LogUnreachable Timeout,
                LogStatus ''http://b:8082'' ''down'',
                DialTimeout ''tcp'' ''c:8083'' 2000, ConnClose ''c:8083'',
                LogStatus ''http://c:8083'' ''up'']\<rparr>
   \<and> Alive (backends (serverPool (HeadthCheck (\<lambda>k address. if address = ''b:8082'' then Some Timeout else None)
        \<lparr>serverPool = pool3 False True True, events = []\<rparr>)) ! 1) = False"
proof -
  let ?dial = "\<lambda>(k::nat) address. if address = ''b:8082'' then Some Timeout else None"
  let ?w = "\<lparr>serverPool = pool3 False True True, events = []\<rparr>"
  have run: "HeadthCheck ?dial ?w
   = \<lparr>serverPool = pool3 True False True,
      events = [DialTimeout ''tcp'' ''a:8081'' 2000, ConnClose ''a:8081'',
                LogStatus ''http://a:8081'' ''up'',
                DialTimeout ''tcp'' ''b:8082'' 2000, LogUnreachable Timeout,
                LogStatus ''http://b:8082'' ''down'',
                DialTimeout ''tcp'' ''c:8083'' 2000, ConnClose ''c:8083'',
                LogStatus ''http://c:8083'' ''up'']\<rparr>"
    by (simp add: HeadthCheck_def isBackendAlive_def SetAlive_def pool3_def urlA_def urlB_def urlC_def)
  have "Alive (backends (serverPool (HeadthCheck ?dial ?w)) ! 1)
          = (?dial (length (filter is_DialTimeout (events ?w)) + 1)
                 (Host (Url (backends (serverPool ?w) ! 1))) = None)"
    using HeadthCheck_pass [of ?dial ?w, THEN conjunct2, THEN conjunct2, THEN conjunct1, THEN spec, of 1]
    by (simp add: pool3_def)
  then have "Alive (backends (serverPool (HeadthCheck ?dial ?w)) ! 1) = False"
    by (simp add: pool3_def urlB_def)
  then show ?thesis using run by simp
qed

section \<open>Request context\<close>

text \<open>
  C10. When the context of a request has no value under the key \<^verbatim>\<open>Retry\<close>, or a value
  that is not an \<^verbatim>\<open>int\<close>, \<^verbatim>\<open>GetRetryFromContext\<close> returns 0, and the same holds for
  \<^verbatim>\<open>GetAttemptsFromContext\<close> and the key \<^verbatim>\<open>Attempts\<close>; a fresh request, whose
  context binds neither key, starts with both counts 0.
\<close>

theorem GetFromContext_default:
  "(Value (ctx r) Retry = None \<or> (\<forall>n. Value (ctx r) Retry \<noteq> Some (AnyInt n))
      \<longrightarrow> GetRetryFromContext r = 0)
   \<and> (Value (ctx r) Attempts = None \<or> (\<forall>n. Value (ctx r) Attempts \<noteq> Some (AnyInt n))
      \<longrightarrow> GetAttemptsFromContext r = 0)"
  by (auto simp: GetRetryFromContext_def GetAttemptsFromContext_def
      split: option.splits any.splits)

theorem GetFromContext_default_witness:
  "GetRetryFromContext fresh = 0
   \<and> GetAttemptsFromContext (WithContext fresh [(Attempts, AnyString ''x'')]) = 0"
  using GetFromContext_default [of fresh]
    GetFromContext_default [of "WithContext fresh [(Attempts, AnyString ''x'')]"]
  by (simp add: Value_def Attempts_def Retry_def fresh_def WithContext_def)

end
